theory Spec2Isabelle
  imports Main "HOL-Library.Sublist" "HOL-Library.Multiset" "HOL-Library.Word"
begin

section \<open>Values, errors and the outside world\<close>

text \<open>
  JavaScript values that cross the boundary of \<^verbatim>\<open>lib/acme.js\<close>: response bodies, JWKs and
  payload documents. \<open>JUndefined\<close> is the value of a missing property.
\<close>

datatype json =
    JUndefined
  | JNull
  | JBool bool
  | JNum int
  | JStr string
  | JArr "json list"
  | JObj "(string \<times> json) list"

text \<open>
  An error is a \<^verbatim>\<open>TypeError\<close> of the runtime, an \<^verbatim>\<open>Error\<close> made by the library (message and,
  where the library sets one, \<^verbatim>\<open>err.code\<close>), or a rejection that comes from an injected
  collaborator (transport, key library, caller callback), which the library passes on
  untouched.
\<close>

datatype error =
    TypeError string
  | Err string "string option"
  | Foreign string

text \<open>Reading a property: \<^verbatim>\<open>undefined.x\<close> and \<^verbatim>\<open>null.x\<close> throw, a primitive has none.\<close>

fun getProp :: "json \<Rightarrow> string \<Rightarrow> error + json" where
  "getProp JUndefined k = Inl (TypeError (''Cannot read property '' @ k @ '' of undefined''))"
| "getProp JNull k = Inl (TypeError (''Cannot read property '' @ k @ '' of null''))"
| "getProp (JObj kvs) k = Inr (case map_of kvs k of None \<Rightarrow> JUndefined | Some v \<Rightarrow> v)"
| "getProp _ k = Inr JUndefined"

fun truthy :: "json \<Rightarrow> bool" where
  "truthy JUndefined = False"
| "truthy JNull = False"
| "truthy (JBool b) = b"
| "truthy (JNum n) = (n \<noteq> 0)"
| "truthy (JStr s) = (s \<noteq> [])"
| "truthy _ = True"

type_synonym jobj = "(string \<times> json) list"


definition delProp :: "jobj \<Rightarrow> string \<Rightarrow> jobj" where
  "delProp kvs k = filter (\<lambda>kv. fst kv \<noteq> k) kvs"

definition lookup :: "jobj \<Rightarrow> string \<Rightarrow> json" where
  "lookup kvs k = (case map_of kvs k of None \<Rightarrow> JUndefined | Some v \<Rightarrow> v)"

text \<open>\<^verbatim>\<open>Array.prototype.join\<close> on strings, and the string a value turns into under \<^verbatim>\<open>+\<close>.\<close>

fun join :: "string \<Rightarrow> string list \<Rightarrow> string" where
  "join sep [] = []"
| "join sep [x] = x"
| "join sep (x # y # ys) = x @ sep @ join sep (y # ys)"

function decimal :: "nat \<Rightarrow> string" where
  "decimal n = (if n < 10 then [char_of (48 + n)] else decimal (n div 10) @ [char_of (48 + n mod 10)])"
  by pat_completeness auto
termination
  by (relation "measure id") auto

fun toStr :: "json \<Rightarrow> string" where
  "toStr JUndefined = ''undefined''"
| "toStr JNull = ''null''"
| "toStr (JBool b) = (if b then ''true'' else ''false'')"
| "toStr (JNum n) = (if n < 0 then CHR ''-'' # decimal (nat (- n)) else decimal (nat n))"
| "toStr (JStr s) = s"
| "toStr (JArr xs) = join '','' (map (\<lambda>x. if x = JUndefined \<or> x = JNull then [] else toStr x) xs)"
| "toStr (JObj kvs) = ''[object Object]''"


record nonce_rec =
  nonce :: string
  createdAt :: int

text \<open>What \<^verbatim>\<open>_getNonce\<close> resolves with: a cache record, a header string, or \<^verbatim>\<open>undefined\<close>.\<close>

datatype nonce_val = NRecord nonce_rec | NString string | NUndefined

record protected =
  p_alg :: json
  p_kid :: json
  p_jwk :: json
  p_nonce :: nonce_val
  p_url :: json

text \<open>
  A flattened JWS. The signer is injected; the model keeps the protected header and the
  payload document that were handed to it next to the signature it returned, so that the
  header that goes out on the wire can be read off a request.
\<close>

record jws =
  j_protected :: protected
  j_payload :: json
  j_signature :: string

datatype json_opt = NoJson | JsonTrue | JsonBody jws

record request =
  rq_method :: "string option"
  rq_url :: json
  rq_json :: json_opt
  rq_headers :: "string \<rightharpoonup> string"

record response =
  statusCode :: int
  headers :: "string \<rightharpoonup> string"
  body :: json

datatype event = Sent request | Waited int | Called string

text \<open>
  The world outside the library, threaded through every operation: the \<open>k\<close>-th reading of
  \<^verbatim>\<open>Date.now()\<close>, the outcome of the \<open>k\<close>-th call of the transport \<^verbatim>\<open>me.request\<close>, and the
  trace of what the library did (requests and timer waits, oldest first).
\<close>

record world =
  clock :: "nat \<Rightarrow> int"
  ticks :: nat
  net :: "nat \<Rightarrow> string + response"
  nreq :: nat
  trace :: "event list"

definition dateNow :: "world \<Rightarrow> int \<times> world" where
  "dateNow w = (clock w (ticks w), w\<lparr>ticks := Suc (ticks w)\<rparr>)"

definition me_request :: "request \<Rightarrow> world \<Rightarrow> (error + response) \<times> world" where
  "me_request opts w =
     (case net w (nreq w) of Inl e \<Rightarrow> Inl (Foreign e) | Inr resp \<Rightarrow> Inr resp,
      w\<lparr>nreq := Suc (nreq w), trace := trace w @ [Sent opts]\<rparr>)"

text \<open>\<^verbatim>\<open>ACME._wait(ms)\<close>: \<^verbatim>\<open>setTimeout(resolve, ms || 1100)\<close>.\<close>

definition wait :: "int option \<Rightarrow> world \<Rightarrow> world" where
  "wait ms w = w\<lparr>trace := trace w @ [Waited (case ms of None \<Rightarrow> 1100 | Some n \<Rightarrow> if n = 0 then 1100 else n)]\<rparr>"

section \<open>The engine handle\<close>

text \<open>
  The fields of \<^verbatim>\<open>me\<close> that the modelled functions read or write. \<^verbatim>\<open>ACME.create\<close> sets
  \<^verbatim>\<open>_nonces = []\<close>; \<^verbatim>\<open>_directoryUrls\<close> and \<^verbatim>\<open>_tos\<close> are undefined until \<^verbatim>\<open>init\<close> has run.
  URLs are kept as the JavaScript values they are: a string, or \<open>JUndefined\<close> where the
  directory object lacks the property.
\<close>

record engine =
  nonces :: "nonce_rec list"
  directoryUrl :: json
  directoryUrls :: json
  tos :: json
  retryInterval :: "int option"
  deauthWait :: "int option"
  retryPoll :: "nat option"
  retryPending :: "nat option"

record keypair =
  privateKeyJwk :: "jobj option"
  publicKeyJwk :: "jobj option"
  privateKeyPem :: json

record extAccount =
  ea_secret :: json
  ea_alg :: json
  ea_id :: json

text \<open>
  What the caller hands back as the ToS URL: the very value it was given, or a value of its
  own. \<^verbatim>\<open>===\<close> compares primitive values by value and objects by identity, and an object
  of the caller's own is not the object that was stored from the directory.
\<close>

datatype answer = Echo | Value json



text \<open>
  The caller's \<^verbatim>\<open>agreeToTerms\<close>, by declared arity. With one parameter it returns a value
  or a promise, which yields a value or fails; with two it is handed a callback, which it
  calls with an error (\<open>None\<close> for a falsy one) and a value. \<open>None\<close> as the answer
  stands for a caller that never answers.
\<close>

datatype agree_fn =
    Arity1 "json \<Rightarrow> (string + answer) option"
  | Arity2 "json \<Rightarrow> (string option \<times> answer) option"
  | ArityOther

record options =
  accountKeypair :: keypair
  agreeToTerms :: agree_fn
  contact :: "string list option"
  email :: "string option"
  externalAccount :: "extAccount option"
  domains :: "string list"
  domainKeypair :: json
  removeChallenge :: nat
  o_kid :: json
  o_finalize :: json
  o_expires :: json
  o_certificate :: json

record bigopts =
  bo_options :: options
  bo_url :: json
  bo_protected :: protected
  bo_payload :: json

text \<open>
  The value bound to the first parameter of \<^verbatim>\<open>ACME._jwsRequest(me, bigopts)\<close>. Some call
  sites pass the engine; \<^verbatim>\<open>_postChallenge\<close>, \<^verbatim>\<open>_finalizeOrder\<close> and the newOrder request
  pass the options literal \<^verbatim>\<open>{ options, url, protected, payload }\<close> in that position, an
  object that has no \<^verbatim>\<open>_nonces\<close>.
\<close>

datatype me_arg = Client engine | Literal bigopts

text \<open>
  The injected key library \<^verbatim>\<open>me.Keypairs\<close> and the platform functions, as parameters. A
  rejection is \<open>Inl\<close> with a description. The signer returns the signature; \<open>clone\<close> is
  \<^verbatim>\<open>JSON.parse(JSON.stringify(pair))\<close> on a key pair; \<open>stringify\<close> is \<^verbatim>\<open>JSON.stringify(x)\<close>
  and \<open>stringifyIndent\<close> is \<^verbatim>\<open>JSON.stringify(x, null, 2)\<close>.
\<close>

datatype signing_key = ByJwk json | BySecret json

record deps =
  signJws :: "signing_key \<Rightarrow> protected \<Rightarrow> json \<Rightarrow> string + string"
  thumbprint :: "json \<Rightarrow> string + string"
  importKey :: "json \<Rightarrow> string + (jobj \<times> jobj)"
  neuter :: "jobj \<Rightarrow> jobj"
  clone :: "jobj \<times> jobj \<Rightarrow> jobj \<times> jobj"
  generateCsrWeb64 :: "json \<Rightarrow> string list \<Rightarrow> string + string"
  digest :: "string \<Rightarrow> 8 word list \<Rightarrow> string + 8 word list"
  stringify :: "json \<Rightarrow> string"
  stringifyIndent :: "json \<Rightarrow> string"
  random :: "nat \<Rightarrow> string"

definition keyJson :: "jobj option \<Rightarrow> json" where
  "keyJson k = (case k of None \<Rightarrow> JUndefined | Some kvs \<Rightarrow> JObj kvs)"

section \<open>Nonce cache and JWS request layer\<close>

text \<open>\<^verbatim>\<open>ACME._setNonce\<close>: \<^verbatim>\<open>me._nonces.unshift({ nonce: nonce, createdAt: Date.now() })\<close>.\<close>

definition setNonce :: "engine \<Rightarrow> string \<Rightarrow> world \<Rightarrow> engine \<times> world" where
  "setNonce me n w =
     (let (t, w') = dateNow w
      in (me\<lparr>nonces := \<lparr>nonce = n, createdAt = t\<rparr> # nonces me\<rparr>, w'))"

text \<open>
  The \<^verbatim>\<open>while (true)\<close> loop of \<^verbatim>\<open>ACME._getNonce\<close>: shift entries off the front until one is
  at most 15 minutes old or the cache is empty. Each iteration reads the clock once.
\<close>

definition expired :: "int \<Rightarrow> nonce_rec \<Rightarrow> bool" where
  "expired t r = (t - createdAt r > 15 * 60 * 1000)"

fun shiftFresh :: "nonce_rec list \<Rightarrow> world \<Rightarrow> nonce_rec option \<times> nonce_rec list \<times> world" where
  "shiftFresh [] w = (None, [], w)"
| "shiftFresh (r # rest) w =
     (let (t, w') = dateNow w
      in if expired t r then shiftFresh rest w' else (Some r, rest, w'))"

definition headerNonce :: "response \<Rightarrow> nonce_val" where
  "headerNonce resp = (case headers resp ''replay-nonce'' of None \<Rightarrow> NUndefined | Some n \<Rightarrow> NString n)"

fun getNonce :: "me_arg \<Rightarrow> world \<Rightarrow> (error + nonce_val) \<times> me_arg \<times> world" where
  "getNonce (Literal b) w =
     (Inl (TypeError ''Cannot read property shift of undefined''), Literal b, w)"
| "getNonce (Client me) w =
     (case shiftFresh (nonces me) w of
        (Some r, rest, w') \<Rightarrow> (Inr (NRecord r), Client (me\<lparr>nonces := rest\<rparr>), w')
      | (None, rest, w') \<Rightarrow>
          (case getProp (directoryUrls me) ''newNonce'' of
             Inl e \<Rightarrow> (Inl e, Client (me\<lparr>nonces := rest\<rparr>), w')
           | Inr u \<Rightarrow>
               (case me_request \<lparr>rq_method = Some ''HEAD'', rq_url = u,
                                 rq_json = NoJson, rq_headers = Map.empty\<rparr> w' of
                  (Inl e, w'') \<Rightarrow> (Inl e, Client (me\<lparr>nonces := rest\<rparr>), w'')
                | (Inr resp, w'') \<Rightarrow> (Inr (headerNonce resp), Client (me\<lparr>nonces := rest\<rparr>), w''))))"

text \<open>
  \<^verbatim>\<open>ACME._request\<close>: fill in the JOSE content type and the POST method for a JSON body,
  call the transport, and push a truthy \<^verbatim>\<open>replay-nonce\<close> header onto the cache. The
  response is the plain object that \<^verbatim>\<open>resp.toJSON()\<close> gives.
\<close>

definition joseOpts :: "request \<Rightarrow> request" where
  "joseOpts opts =
     (case rq_json opts of
        JsonBody j \<Rightarrow>
          opts\<lparr>rq_headers := (rq_headers opts)(''Content-Type'' \<mapsto> ''application/jose+json''),
               rq_method := (case rq_method opts of None \<Rightarrow> Some ''POST'' | Some m \<Rightarrow>
                               if m = [] then Some ''POST'' else Some m)\<rparr>
      | _ \<Rightarrow> opts)"

definition ACME_request :: "engine \<Rightarrow> request \<Rightarrow> world \<Rightarrow> (error + response) \<times> engine \<times> world" where
  "ACME_request me opts w =
     (case me_request (joseOpts opts) w of
        (Inl e, w') \<Rightarrow> (Inl e, me, w')
      | (Inr resp, w') \<Rightarrow>
          (case headers resp ''replay-nonce'' of
             None \<Rightarrow> (Inr resp, me, w')
           | Some n \<Rightarrow>
               if n = [] then (Inr resp, me, w')
               else (let (me', w'') = setNonce me n w' in (Inr resp, me', w''))))"

text \<open>
  \<^verbatim>\<open>ACME._jwsRequest\<close>: take a nonce, write it and the URL into the protected header, have
  the header and payload signed with the account key, and POST the JWS.
\<close>

definition jwsRequest ::
  "deps \<Rightarrow> me_arg \<Rightarrow> bigopts option \<Rightarrow> world \<Rightarrow> (error + response) \<times> me_arg \<times> world" where
  "jwsRequest d me bigopts w =
     (case getNonce me w of
        (Inl e, me1, w1) \<Rightarrow> (Inl e, me1, w1)
      | (Inr n, me1, w1) \<Rightarrow>
          (case (me1, bigopts) of
             (Client c, Some b) \<Rightarrow>
               (let prot = (bo_protected b)\<lparr>p_nonce := n, p_url := bo_url b\<rparr>
                in case signJws d (ByJwk (keyJson (privateKeyJwk (accountKeypair (bo_options b))))) prot (bo_payload b) of
                     Inl e \<Rightarrow> (Inl (Foreign e), me1, w1)
                   | Inr sig \<Rightarrow>
                       (case ACME_request c
                               \<lparr>rq_method = None, rq_url = bo_url b,
                                rq_json = JsonBody \<lparr>j_protected = prot, j_payload = bo_payload b,
                                                    j_signature = sig\<rparr>,
                                rq_headers = Map.empty\<rparr> w1 of
                          (r, c', w2) \<Rightarrow> (r, Client c', w2)))
           | _ \<Rightarrow> (Inl (TypeError ''Cannot read property protected of undefined''), me1, w1)))"

text \<open>\<^verbatim>\<open>ACME._directory\<close>: a plain GET through the transport; \<^verbatim>\<open>me\<close> is only read.\<close>

definition ACME_directory :: "engine \<Rightarrow> world \<Rightarrow> (error + response) \<times> world" where
  "ACME_directory me w =
     me_request \<lparr>rq_method = Some ''GET'', rq_url = directoryUrl me,
                 rq_json = JsonTrue, rq_headers = Map.empty\<rparr> w"

text \<open>
  \<^verbatim>\<open>me.init(opts)\<close>. The inner \<^verbatim>\<open>fin(dir)\<close> stores the directory object and then reads
  \<^verbatim>\<open>dir.meta.termsOfService\<close>, so the store survives a failing read.
\<close>

definition fin :: "engine \<Rightarrow> json \<Rightarrow> (error + json) \<times> engine" where
  "fin me dir =
     (let me1 = me\<lparr>directoryUrls := dir\<rparr>
      in case getProp dir ''meta'' of
           Inl e \<Rightarrow> (Inl e, me1)
         | Inr meta \<Rightarrow>
             (case getProp meta ''termsOfService'' of
                Inl e \<Rightarrow> (Inl e, me1)
              | Inr t \<Rightarrow> (Inr dir, me1\<lparr>tos := t\<rparr>)))"

fun isString :: "json \<Rightarrow> bool" where
  "isString (JStr s) = True"
| "isString _ = False"

definition propTruthy :: "json \<Rightarrow> string \<Rightarrow> bool" where
  "propTruthy v k = (case getProp v k of Inl e \<Rightarrow> False | Inr x \<Rightarrow> truthy x)"

definition init :: "engine \<Rightarrow> json \<Rightarrow> world \<Rightarrow> (error + json) \<times> engine \<times> world" where
  "init me opts w =
     (if truthy opts \<and> propTruthy opts ''meta'' \<and> propTruthy opts ''termsOfService''
      then (case fin me opts of (r, me') \<Rightarrow> (r, me', w))
      else
        (let me1 = (if truthy (directoryUrl me) then me else me\<lparr>directoryUrl := opts\<rparr>)
         in if \<not> isString (directoryUrl me1)
            then (Inl (Err ''you must supply either the ACME directory url as a string or an object of the ACME urls'' None), me1, w)
            else (case ACME_directory me1 w of
                    (Inl e, w') \<Rightarrow> (Inl e, me1, w')
                  | (Inr resp, w') \<Rightarrow> (case fin me1 (body resp) of (r, me') \<Rightarrow> (r, me', w')))))"

text \<open>A run of signed requests on one engine, one after the other, whatever each returns.\<close>

fun jwsRequests :: "deps \<Rightarrow> engine \<Rightarrow> bigopts list \<Rightarrow> world \<Rightarrow> engine \<times> world" where
  "jwsRequests d me [] w = (me, w)"
| "jwsRequests d me (b # bs) w =
     (case jwsRequest d (Client me) (Some b) w of
        (r, Client me', w') \<Rightarrow> jwsRequests d me' bs w'
      | (r, Literal l, w') \<Rightarrow> jwsRequests d me bs w')"

text \<open>The nonce strings the transport has delivered so far, and those that went out signed.\<close>

definition replyNonce :: "string + response \<Rightarrow> string list" where
  "replyNonce r =
     (case r of Inl e \<Rightarrow> []
      | Inr resp \<Rightarrow> (case headers resp ''replay-nonce'' of None \<Rightarrow> [] | Some n \<Rightarrow> [n]))"

definition issued :: "world \<Rightarrow> string list" where
  "issued w = concat (map (\<lambda>k. replyNonce (net w k)) [0..<nreq w])"

fun nonceString :: "nonce_val \<Rightarrow> string list" where
  "nonceString (NRecord r) = [nonce r]"
| "nonceString (NString s) = [s]"
| "nonceString NUndefined = []"

fun eventNonce :: "event \<Rightarrow> string list" where
  "eventNonce (Sent rq) =
     (case rq_json rq of JsonBody j \<Rightarrow> nonceString (p_nonce (j_protected j)) | _ \<Rightarrow> [])"
| "eventNonce (Waited n) = []"
| "eventNonce (Called f) = []"

definition sentNonces :: "world \<Rightarrow> string list" where
  "sentNonces w = concat (map eventNonce (trace w))"

section \<open>Account registration\<close>













section \<open>String and byte helpers\<close>

text \<open>
  \<^verbatim>\<open>String.prototype.replace\<close> with a string pattern replaces the first occurrence; with a
  global regular expression for a literal it replaces every occurrence, left to right and
  without overlap.
\<close>

fun replaceFirst :: "string \<Rightarrow> string \<Rightarrow> string \<Rightarrow> string" where
  "replaceFirst pat rep [] = (if pat = [] then rep else [])"
| "replaceFirst pat rep (c # cs) =
     (if prefix pat (c # cs) then rep @ drop (length pat) (c # cs)
      else c # replaceFirst pat rep cs)"

function replaceAll :: "string \<Rightarrow> string \<Rightarrow> string \<Rightarrow> string" where
  "replaceAll pat rep [] = []"
| "replaceAll pat rep (c # cs) =
     (if pat \<noteq> [] \<and> prefix pat (c # cs)
      then rep @ replaceAll pat rep (drop (length pat) (c # cs))
      else c # replaceAll pat rep cs)"
  by pat_completeness auto
termination
  by (relation "measure (\<lambda>(pat, rep, s). length s)") auto









section \<open>Challenge derivation\<close>

text \<open>\<^verbatim>\<open>ACME._untame\<close>; \<^verbatim>\<open>name.replace\<close> exists on strings only.\<close>

definition untame :: "json \<Rightarrow> json \<Rightarrow> error + json" where
  "untame name wild =
     (if truthy wild
      then (case name of
              JStr s \<Rightarrow> Inr (JStr (''*.'' @ replaceFirst ''*.'' [] s))
            | _ \<Rightarrow> Inl (TypeError ''name.replace is not a function''))
      else Inr name)"



section \<open>Authorization driver: accepting a challenge and polling it\<close>

text \<open>
  The local variables of \<^verbatim>\<open>ACME._postChallenge\<close> that its inner functions close over.
  \<^verbatim>\<open>count\<close>, the one they mutate, is passed along and returned.
\<close>

record poll_env =
  RETRY_INTERVAL :: int
  DEAUTH_INTERVAL :: int
  MAX_POLL :: nat
  MAX_PEND :: nat
  altname :: json
  pe_options :: options
  pe_auth :: jobj

definition orInt :: "int option \<Rightarrow> int \<Rightarrow> int" where
  "orInt v dflt = (case v of None \<Rightarrow> dflt | Some n \<Rightarrow> if n = 0 then dflt else n)"

definition orNat :: "nat option \<Rightarrow> nat \<Rightarrow> nat" where
  "orNat v dflt = (case v of None \<Rightarrow> dflt | Some n \<Rightarrow> if n = 0 then dflt else n)"

text \<open>
  The options literal that \<^verbatim>\<open>deactivate\<close> and \<^verbatim>\<open>respondToChallenge\<close> build. They call
  \<^verbatim>\<open>ACME._jwsRequest\<close> with it as the only argument, so it is bound to \<^verbatim>\<open>me\<close> and
  \<^verbatim>\<open>bigopts\<close> is undefined.
\<close>

definition challengeOpts :: "poll_env \<Rightarrow> jobj \<Rightarrow> bigopts" where
  "challengeOpts env payload =
     \<lparr>bo_options = pe_options env, bo_url = lookup (pe_auth env) ''url'',
      bo_protected = \<lparr>p_alg = JUndefined, p_kid = o_kid (pe_options env), p_jwk = JUndefined,
                      p_nonce = NUndefined, p_url = JUndefined\<rparr>,
      bo_payload = JObj payload\<rparr>"

definition deactivate :: "deps \<Rightarrow> poll_env \<Rightarrow> world \<Rightarrow> (error + unit) \<times> world" where
  "deactivate d env w =
     (case jwsRequest d (Literal (challengeOpts env [(''status'', JStr ''deactivated'')])) None w of
        (Inl e, m, w') \<Rightarrow> (Inl e, w')
      | (Inr resp, m, w') \<Rightarrow> (Inr (), wait (Some (DEAUTH_INTERVAL env)) w'))"

text \<open>
  The \<^verbatim>\<open>try { ... } catch (e) {}\<close> around the caller's \<^verbatim>\<open>removeChallenge\<close>: with arity 1
  or 2 it is called; otherwise its first argument \<^verbatim>\<open>auth.request.identifier\<close> is evaluated
  first, and when that throws the call does not happen.
\<close>

definition callRemoveChallenge :: "poll_env \<Rightarrow> world \<Rightarrow> world" where
  "callRemoveChallenge env w =
     (if removeChallenge (pe_options env) = 1 \<or> removeChallenge (pe_options env) = 2
      then w\<lparr>trace := trace w @ [Called ''removeChallenge'']\<rparr>
      else (case getProp (lookup (pe_auth env) ''request'') ''identifier'' of
              Inl e \<Rightarrow> w
            | Inr i \<Rightarrow> w\<lparr>trace := trace w @ [Called ''removeChallenge'']\<rparr>))"

definition pollRequest :: "poll_env \<Rightarrow> request" where
  "pollRequest env = \<lparr>rq_method = Some ''GET'', rq_url = lookup (pe_auth env) ''url'',
                       rq_json = JsonTrue, rq_headers = Map.empty\<rparr>"

definition stateError :: "poll_env \<Rightarrow> json \<Rightarrow> error" where
  "stateError env status =
     (if \<not> truthy status
      then Err (''[acme-v2] (E_STATE_EMPTY) empty challenge state for '' @ [CHR 0x27] @ toStr (altname env)
                @ [CHR 0x27] @ '':'') None
      else if status = JStr ''invalid''
      then Err (''[acme-v2] (E_STATE_INVALID) challenge state for '' @ [CHR 0x27] @ toStr (altname env)
                @ [CHR 0x27] @ '': '' @ [CHR 0x27] @ toStr status @ [CHR 0x27]) None
      else Err (''[acme-v2] (E_STATE_UKN) challenge state for '' @ [CHR 0x27] @ toStr (altname env)
                @ [CHR 0x27] @ '': '' @ [CHR 0x27] @ toStr status @ [CHR 0x27]) None)"

definition stuckError :: "poll_env \<Rightarrow> error" where
  "stuckError env =
     Err (''[acme-v2] stuck in bad pending/processing state for '' @ [CHR 0x27] @ toStr (altname env)
          @ [CHR 0x27]) None"

text \<open>\<^verbatim>\<open>pollStatus\<close> and \<^verbatim>\<open>respondToChallenge\<close>, which call each other; \<open>cnt\<close> is
  the shared variable \<^verbatim>\<open>count\<close>.\<close>

function pollStatus :: "deps \<Rightarrow> poll_env \<Rightarrow> nat \<Rightarrow> world \<Rightarrow> (error + json) \<times> nat \<times> world"
  and respondToChallenge :: "deps \<Rightarrow> poll_env \<Rightarrow> nat \<Rightarrow> world \<Rightarrow> (error + json) \<times> nat \<times> world"
where
  "pollStatus d env cnt w =
     (if cnt \<ge> MAX_POLL env then (Inl (stuckError env), cnt, w)
      else
        (case me_request (pollRequest env) w of
           (Inl e, w1) \<Rightarrow> (Inl e, cnt + 1, w1)
         | (Inr resp, w1) \<Rightarrow>
             (case getProp (body resp) ''status'' of
                Inl e \<Rightarrow> (Inl e, cnt + 1, w1)
              | Inr status \<Rightarrow>
                  if status = JStr ''processing''
                  then pollStatus d env (cnt + 1) (wait (Some (RETRY_INTERVAL env)) w1)
                  else if status = JStr ''pending''
                  then (if cnt + 1 \<ge> MAX_PEND env
                        then (case deactivate d env (wait (Some (RETRY_INTERVAL env)) w1) of
                                (Inl e, w2) \<Rightarrow> (Inl e, cnt + 1, w2)
                              | (Inr u, w2) \<Rightarrow> respondToChallenge d env (cnt + 1) w2)
                        else respondToChallenge d env (cnt + 1) (wait (Some (RETRY_INTERVAL env)) w1))
                  else if status = JStr ''valid''
                  then (Inr (body resp), cnt + 1, callRemoveChallenge env w1)
                  else (Inl (stateError env status), cnt + 1, w1))))"
| "respondToChallenge d env cnt w =
     (case jwsRequest d (Literal (challengeOpts env [])) None w of
        (Inl e, m, w') \<Rightarrow> (Inl e, cnt, w')
      | (Inr resp, m, w') \<Rightarrow> pollStatus d env cnt (wait (Some (RETRY_INTERVAL env)) w'))"
  by pat_completeness auto
termination
  by (relation "measure (\<lambda>x. case x of
                    Inl (d, env, cnt, w) \<Rightarrow> 2 * (MAX_POLL env - cnt)
                  | Inr (d, env, cnt, w) \<Rightarrow> 2 * (MAX_POLL env - cnt) + 1)") auto

definition postChallenge ::
  "deps \<Rightarrow> engine \<Rightarrow> options \<Rightarrow> jobj \<Rightarrow> world \<Rightarrow> (error + json) \<times> world" where
  "postChallenge d me options auth w =
     (case getProp (lookup auth ''identifier'') ''value'' of
        Inl e \<Rightarrow> (Inl e, w)
      | Inr v \<Rightarrow>
          (case untame v (lookup auth ''wildcard'') of
             Inl e \<Rightarrow> (Inl e, w)
           | Inr alt \<Rightarrow>
               (case respondToChallenge d
                       \<lparr>RETRY_INTERVAL = orInt (retryInterval me) 1000,
                        DEAUTH_INTERVAL = orInt (deauthWait me) (10 * 1000),
                        MAX_POLL = orNat (retryPoll me) 8,
                        MAX_PEND = orNat (retryPending me) 4,
                        altname = alt, pe_options = options, pe_auth = auth\<rparr> 0 w of
                  (r, cnt, w') \<Rightarrow> (r, w'))))"

text \<open>The poll of a challenge URL among the traced events, and how many a run has added.\<close>

definition isPoll :: "jobj \<Rightarrow> event \<Rightarrow> bool" where
  "isPoll auth ev =
     (case ev of
        Sent rq \<Rightarrow> rq_method rq = Some ''GET'' \<and> rq_url rq = lookup auth ''url'' \<and> rq_json rq = JsonTrue
      | _ \<Rightarrow> False)"


section \<open>Order driver: finalizing\<close>

text \<open>
  \<^verbatim>\<open>ACME._finalizeOrder\<close>. \<^verbatim>\<open>pollCert\<close> calls itself for as long as the order is
  \<^verbatim>\<open>processing\<close>, with no bound, so it is a partial function: \<open>None\<close> is a run that never
  returns. Like the challenge functions it passes the options literal to
  \<^verbatim>\<open>ACME._jwsRequest\<close> as the only argument.
\<close>

definition finalizeError :: "deps \<Rightarrow> options \<Rightarrow> string list \<Rightarrow> json \<Rightarrow> json \<Rightarrow> error" where
  "finalizeError d options validatedDomains status b =
     (let lists = ''Requested: '' @ [CHR 0x27] @ join '', '' (domains options) @ [CHR 0x27, CHR 0x0A]
                  @ ''Validated: '' @ [CHR 0x27] @ join '', '' validatedDomains @ [CHR 0x27, CHR 0x0A]
                  @ stringifyIndent d b
      in if status = JStr ''pending''
         then Err (''Did not finalize order: status '' @ [CHR 0x27] @ ''pending'' @ [CHR 0x27] @ ''.''
                   @ '' Best guess: You have not accepted at least one challenge for each domain:''
                   @ [CHR 0x0A] @ lists) None
         else if status = JStr ''invalid''
         then Err (''Did not finalize order: status '' @ [CHR 0x27] @ ''invalid'' @ [CHR 0x27] @ ''.''
                   @ '' Best guess: One or more of the domain challenges could not be verified''
                   @ '' (or the order was canceled).'' @ [CHR 0x0A] @ lists) None
         else if status = JStr ''ready''
         then Err (''Did not finalize order: status '' @ [CHR 0x27] @ ''ready'' @ [CHR 0x27] @ ''.''
                   @ '' Hmmm... this state shouldn'' @ [CHR 0x27] @ ''t be possible here. That was the last state.''
                   @ '' This one should at least be '' @ [CHR 0x27] @ ''processing'' @ [CHR 0x27] @ ''.''
                   @ [CHR 0x0A] @ lists @ [CHR 0x0A, CHR 0x0A]
                   @ ''Please open an issue at https://git.coolaj86.com/coolaj86/acme-v2.js'') None
         else Err (''Didn'' @ [CHR 0x27] @ ''t finalize order: Unhandled status '' @ [CHR 0x27] @ toStr status
                   @ [CHR 0x27] @ ''.'' @ '' This is not one of the known statuses...'' @ [CHR 0x0A]
                   @ lists @ [CHR 0x0A, CHR 0x0A]
                   @ ''Please open an issue at https://git.coolaj86.com/coolaj86/acme-v2.js'') None)"

definition finalizeOpts :: "options \<Rightarrow> string \<Rightarrow> bigopts" where
  "finalizeOpts options csr =
     \<lparr>bo_options = options, bo_url = o_finalize options,
      bo_protected = \<lparr>p_alg = JUndefined, p_kid = o_kid options, p_jwk = JUndefined,
                      p_nonce = NUndefined, p_url = JUndefined\<rparr>,
      bo_payload = JObj [(''csr'', JStr csr)]\<rparr>"

partial_function (option) pollCert ::
  "deps \<Rightarrow> options \<Rightarrow> string list \<Rightarrow> string \<Rightarrow> world \<Rightarrow> ((error + json) \<times> options \<times> world) option" where
  "pollCert d options validatedDomains csr w =
     (case jwsRequest d (Literal (finalizeOpts options csr)) None w of
        (Inl e, m, w') \<Rightarrow> Some (Inl e, options, w')
      | (Inr resp, m, w') \<Rightarrow>
          (case getProp (body resp) ''status'' of
             Inl e \<Rightarrow> Some (Inl e, options, w')
           | Inr status \<Rightarrow>
               if status = JStr ''valid''
               then Some (Inr (body resp),
                          options\<lparr>o_expires := lookup (case body resp of JObj kvs \<Rightarrow> kvs | _ \<Rightarrow> []) ''expires'',
                                  o_certificate := lookup (case body resp of JObj kvs \<Rightarrow> kvs | _ \<Rightarrow> []) ''certificate''\<rparr>,
                          w')
               else if status = JStr ''processing''
               then pollCert d options validatedDomains csr (wait None w')
               else Some (Inl (finalizeError d options validatedDomains status (body resp)), options, w')))"

definition finalizeOrder ::
  "deps \<Rightarrow> engine \<Rightarrow> options \<Rightarrow> string list \<Rightarrow> world \<Rightarrow> ((error + json) \<times> options \<times> world) option" where
  "finalizeOrder d me options validatedDomains w =
     (case generateCsrWeb64 d (domainKeypair options) validatedDomains of
        Inl e \<Rightarrow> Some (Inl (Foreign e), options, w)
      | Inr csr \<Rightarrow> pollCert d options validatedDomains csr w)"

section \<open>PEM chain utilities\<close>

text \<open>
  \<^verbatim>\<open>String.prototype.trim\<close> strips white space and line terminators from both ends; among
  the code units below 256 these are tab, LF, VT, FF, CR, space and the no-break space.
\<close>

definition isSpace :: "char \<Rightarrow> bool" where
  "isSpace c = (c \<in> {CHR 0x09, CHR 0x0A, CHR 0x0B, CHR 0x0C, CHR 0x0D, CHR 0x20, CHR 0xA0})"

definition trim :: "string \<Rightarrow> string" where
  "trim s = rev (dropWhile isSpace (rev (dropWhile isSpace s)))"

text \<open>The class \<^verbatim>\<open>[\r\n]\<close>.\<close>

definition isNl :: "char \<Rightarrow> bool" where
  "isNl c = (c = CHR 0x0D \<or> c = CHR 0x0A)"

text \<open>\<^verbatim>\<open>replace(/[\r\n]+/g, '\n')\<close>: every maximal run of line breaks becomes one LF.\<close>

function collapseNl :: "string \<Rightarrow> string" where
  "collapseNl [] = []"
| "collapseNl (c # cs) =
     (if isNl c then CHR 0x0A # collapseNl (dropWhile isNl cs) else c # collapseNl cs)"
  by pat_completeness auto
termination
  by (relation "measure length") (auto simp: le_imp_less_Suc length_dropWhile_le)

text \<open>\<^verbatim>\<open>ACME.formatPemChain\<close>.\<close>

definition formatPemChain :: "string \<Rightarrow> string" where
  "formatPemChain str =
     replaceAll [CHR ''-'', CHR 0x0A, CHR ''-''] [CHR ''-'', CHR 0x0A, CHR 0x0A, CHR ''-'']
       (collapseNl (trim str)) @ [CHR 0x0A]"

text \<open>
  \<^verbatim>\<open>split(/[\r\n]{2,}/g)\<close>: the separators are the maximal runs of two or more line breaks;
  \<open>acc\<close> holds the piece that is being read, last character first. An empty string gives
  one empty piece.
\<close>

function splitBlank :: "string \<Rightarrow> string \<Rightarrow> string list" where
  "splitBlank acc [] = [rev acc]"
| "splitBlank acc (c # cs) =
     (if isNl c \<and> cs \<noteq> [] \<and> isNl (hd cs)
      then rev acc # splitBlank [] (dropWhile isNl cs)
      else splitBlank (c # acc) cs)"
  by pat_completeness auto
termination
  by (relation "measure (\<lambda>(acc, s). length s)") (auto simp: le_imp_less_Suc length_dropWhile_le)

text \<open>\<^verbatim>\<open>ACME.splitPemChain\<close>.\<close>

definition splitPemChain :: "string \<Rightarrow> string list" where
  "splitPemChain str = map (\<lambda>s. s @ [CHR 0x0A]) (splitBlank [] (trim str))"

text \<open>
  The text of a PEM block, without the line breaks that end it: it begins and ends with a
  dash (the \<^verbatim>\<open>-----BEGIN\<close> and \<^verbatim>\<open>-----END\<close> lines), and no line that ends with a dash
  is followed by a line that begins with one (there is a body between the two lines). A
  block is such a text with the line breaks that follow it.
\<close>

definition pemText :: "string \<Rightarrow> bool" where
  "pemText t =
     (2 \<le> length t \<and> hd t = CHR ''-'' \<and> last t = CHR ''-'' \<and>
      \<not> sublist [CHR ''-'', CHR 0x0A, CHR ''-''] (collapseNl t))"

definition pemBlock :: "string \<times> string \<Rightarrow> string" where
  "pemBlock b = fst b @ snd b"

definition pemChainOk :: "(string \<times> string) list \<Rightarrow> bool" where
  "pemChainOk blocks =
     (blocks \<noteq> [] \<and> list_all (\<lambda>b. pemText (fst b) \<and> list_all isNl (snd b)) blocks \<and>
      list_all (\<lambda>b. snd b \<noteq> []) (butlast blocks))"

section \<open>Sample inputs\<close>

definition sampleDirectory :: json where
  "sampleDirectory = JObj [(''newNonce'', JStr ''https://ca.test/nonce''),
                           (''newAccount'', JStr ''https://ca.test/acct''),
                           (''newOrder'', JStr ''https://ca.test/order''),
                           (''meta'', JObj [(''termsOfService'', JStr ''https://ca.test/tos'')])]"

text \<open>The engine as \<^verbatim>\<open>ACME.create\<close> leaves it, and the same engine after \<^verbatim>\<open>init\<close>.\<close>

definition freshEngine :: engine where
  "freshEngine = \<lparr>nonces = [], directoryUrl = JUndefined, directoryUrls = JUndefined,
                   tos = JUndefined, retryInterval = None, deauthWait = None,
                   retryPoll = None, retryPending = None\<rparr>"

definition readyEngine :: engine where
  "readyEngine = freshEngine\<lparr>directoryUrl := JStr ''https://ca.test/dir'',
                             directoryUrls := sampleDirectory,
                             tos := JStr ''https://ca.test/tos''\<rparr>"

text \<open>A server whose \<open>k\<close>-th reply carries the nonce \<open>n\<close> followed by \<open>k\<close> letters x.\<close>

definition sampleReply :: "json \<Rightarrow> nat \<Rightarrow> string + response" where
  "sampleReply b k = Inr \<lparr>statusCode = 200,
                          headers = [''replay-nonce'' \<mapsto> CHR ''n'' # replicate k CHR ''x''],
                          body = b\<rparr>"

definition sampleWorld :: "json \<Rightarrow> world" where
  "sampleWorld b = \<lparr>clock = (\<lambda>k. 1000 * int k), ticks = 0, net = sampleReply b, nreq = 0, trace = []\<rparr>"

definition sampleDeps :: deps where
  "sampleDeps = \<lparr>signJws = (\<lambda>k p pl. Inr ''sig''), thumbprint = (\<lambda>k. Inr ''thumb''),
                  importKey = (\<lambda>pem. Inr ([(''kty'', JStr ''EC''), (''d'', JStr ''secret'')], [(''kty'', JStr ''EC'')])),
                  neuter = (\<lambda>jwk. delProp jwk ''d''), clone = (\<lambda>pair. pair),
                  generateCsrWeb64 = (\<lambda>k ds. Inr ''csr''),
                  digest = (\<lambda>a bs. Inr (take 32 (bs @ replicate 32 0))),
                  stringify = (\<lambda>j. ''{}''), stringifyIndent = (\<lambda>j. ''{}''),
                  random = (\<lambda>n. replicate (2 * n) CHR ''0'')\<rparr>"

definition sampleOptions :: options where
  "sampleOptions =
     \<lparr>accountKeypair = \<lparr>privateKeyJwk = Some [(''kty'', JStr ''EC''), (''d'', JStr ''secret'')],
                         publicKeyJwk = None, privateKeyPem = JUndefined\<rparr>,
      agreeToTerms = Arity1 (\<lambda>t. Some (Inr (Value t))),
      contact = None, email = Some ''admin@example.test'', externalAccount = None,
      domains = [''example.test''], domainKeypair = JObj [(''kty'', JStr ''EC'')],
      removeChallenge = 1,
      o_kid = JUndefined, o_finalize = JUndefined, o_expires = JUndefined,
      o_certificate = JUndefined\<rparr>"

definition sampleOpts :: bigopts where
  "sampleOpts = \<lparr>bo_options = sampleOptions, bo_url = JStr ''https://ca.test/acct'',
                  bo_protected = \<lparr>p_alg = JUndefined, p_kid = JStr ''https://ca.test/acct/1'', p_jwk = JUndefined,
                                  p_nonce = NUndefined, p_url = JUndefined\<rparr>,
                  bo_payload = JStr []\<rparr>"

text \<open>A server that puts the same nonce \<open>n\<close> on every reply.\<close>

definition repeatWorld :: world where
  "repeatWorld = \<lparr>clock = (\<lambda>k. 1000 * int k), ticks = 0, net = (\<lambda>k. sampleReply JNull 0),
                   nreq = 0, trace = []\<rparr>"

text \<open>A cache whose front entry has expired at time 0, followed by two fresh ones.\<close>

definition sampleCache :: engine where
  "sampleCache = readyEngine\<lparr>nonces := [\<lparr>nonce = ''old'', createdAt = - 900001\<rparr>,
                                         \<lparr>nonce = ''ok'', createdAt = 0\<rparr>,
                                         \<lparr>nonce = ''older'', createdAt = - 5\<rparr>]\<rparr>"






definition keyedOptions :: options where
  "keyedOptions = sampleOptions\<lparr>accountKeypair :=
                    (accountKeypair sampleOptions)\<lparr>publicKeyJwk := Some [(''kty'', JStr ''EC'')]\<rparr>,
                    o_kid := JStr ''https://ca.test/acct/1''\<rparr>"

text \<open>A derived Auth value, the variables of a polling run on it, and three server scripts.\<close>

definition sampleAuth :: jobj where
  "sampleAuth = [(''identifier'', JObj [(''type'', JStr ''dns''), (''value'', JStr ''example.test'')]),
                 (''status'', JStr ''pending''), (''type'', JStr ''http-01''),
                 (''url'', JStr ''https://ca.test/chall/1''), (''token'', JStr ''tok''),
                 (''hostname'', JStr ''example.test''), (''altname'', JStr ''example.test'')]"

definition sampleEnv :: poll_env where
  "sampleEnv = \<lparr>RETRY_INTERVAL = 1000, DEAUTH_INTERVAL = 10000, MAX_POLL = 8, MAX_PEND = 4,
                 altname = JStr ''example.test'', pe_options = keyedOptions, pe_auth = sampleAuth\<rparr>"

definition statusWorld :: "string \<Rightarrow> world" where
  "statusWorld st = sampleWorld (JObj [(''status'', JStr st)])"

text \<open>Two certificates, the first with LF and the second with CRLF line ends.\<close>

definition lfCert :: string where
  "lfCert = ''-----BEGIN CERTIFICATE-----'' @ [CHR 0x0A] @ ''QUJD'' @ [CHR 0x0A] @ ''-----END CERTIFICATE-----''"

definition crlfCert :: string where
  "crlfCert = ''-----BEGIN CERTIFICATE-----'' @ [CHR 0x0D, CHR 0x0A] @ ''REVG'' @ [CHR 0x0D, CHR 0x0A]
              @ ''-----END CERTIFICATE-----''"

section \<open>Properties of the nonce cache and the request layer\<close>

text \<open>
  What the expiry loop does, by position: it discards a prefix of \<open>k\<close> entries, each
  expired at the clock reading of its own iteration, and stops at the first entry that is
  not expired or at the end of the cache.
\<close>

lemma shiftFresh_char:
  "shiftFresh cache w = (res, rest, w') \<Longrightarrow>
   \<exists>k\<le>length cache.
      (\<forall>i<k. expired (clock w (ticks w + i)) (cache ! i)) \<and>
      (if k < length cache
       then res = Some (cache ! k) \<and> rest = drop (Suc k) cache \<and>
            \<not> expired (clock w (ticks w + k)) (cache ! k) \<and> w' = w\<lparr>ticks := ticks w + Suc k\<rparr>
       else res = None \<and> rest = [] \<and> w' = w\<lparr>ticks := ticks w + k\<rparr>)"
proof (induction cache arbitrary: w)
  case Nil
  then show ?case by simp
next
  case (Cons r cache)
  show ?case
  proof (cases "expired (clock w (ticks w)) r")
    case False
    with Cons.prems have "res = Some r \<and> rest = cache \<and> w' = w\<lparr>ticks := ticks w + Suc 0\<rparr>"
      by (auto simp: dateNow_def expired_def)
    with False show ?thesis by (intro exI[of _ 0]) simp
  next
    case True
    with Cons.prems have "shiftFresh cache (w\<lparr>ticks := Suc (ticks w)\<rparr>) = (res, rest, w')"
      by (simp add: dateNow_def expired_def)
    from Cons.IH[OF this] obtain k where k: "k \<le> length cache"
      "\<forall>i<k. expired (clock (w\<lparr>ticks := Suc (ticks w)\<rparr>) (ticks (w\<lparr>ticks := Suc (ticks w)\<rparr>) + i)) (cache ! i)"
      "if k < length cache
       then res = Some (cache ! k) \<and> rest = drop (Suc k) cache \<and>
            \<not> expired (clock (w\<lparr>ticks := Suc (ticks w)\<rparr>) (ticks (w\<lparr>ticks := Suc (ticks w)\<rparr>) + k)) (cache ! k) \<and>
            w' = w\<lparr>ticks := Suc (ticks w)\<rparr>\<lparr>ticks := ticks (w\<lparr>ticks := Suc (ticks w)\<rparr>) + Suc k\<rparr>
       else res = None \<and> rest = [] \<and>
            w' = w\<lparr>ticks := Suc (ticks w)\<rparr>\<lparr>ticks := ticks (w\<lparr>ticks := Suc (ticks w)\<rparr>) + k\<rparr>"
      by blast
    have "\<forall>i<Suc k. expired (clock w (ticks w + i)) ((r # cache) ! i)"
    proof (intro allI impI)
      fix i assume "i < Suc k"
      then show "expired (clock w (ticks w + i)) ((r # cache) ! i)"
        using True k(2) by (cases i) auto
    qed
    with k(1,3) show ?thesis
      by (intro exI[of _ "Suc k"]) (simp split: if_splits)
  qed
qed

lemma shiftFresh_world:
  "shiftFresh cache w = (res, rest, w') \<Longrightarrow>
     trace w' = trace w \<and> nreq w' = nreq w \<and> net w' = net w \<and> clock w' = clock w"
  by (induction cache arbitrary: w) (auto simp: dateNow_def split: if_splits)

text \<open>
  Claim C3. \<^verbatim>\<open>_setNonce\<close> pushes to the front and \<^verbatim>\<open>_getNonce\<close> shifts from the front, so
  the most recently cached nonce is tried first. Every entry popped more than 15 minutes
  after its \<open>createdAt\<close> is discarded and the next one is tried. When the cache is or
  becomes empty, a HEAD request goes to the directory's newNonce URL and the
  \<^verbatim>\<open>replay-nonce\<close> header of the response is the result. The record that is handed out is
  at most 15 minutes old when it is taken.
\<close>

theorem getNonce_lifo_expiry:
  "getNonce (Client me) w = (res, me', w') \<Longrightarrow>
   fst (setNonce me n w) = me\<lparr>nonces := \<lparr>nonce = n, createdAt = clock w (ticks w)\<rparr> # nonces me\<rparr> \<and>
   (\<exists>k\<le>length (nonces me).
      (\<forall>i<k. clock w (ticks w + i) - createdAt (nonces me ! i) > 15 * 60 * 1000) \<and>
      (if k < length (nonces me)
       then clock w (ticks w + k) - createdAt (nonces me ! k) \<le> 15 * 60 * 1000 \<and>
            res = Inr (NRecord (nonces me ! k)) \<and>
            me' = Client (me\<lparr>nonces := drop (Suc k) (nonces me)\<rparr>) \<and> trace w' = trace w
       else me' = Client (me\<lparr>nonces := []\<rparr>) \<and>
            (case getProp (directoryUrls me) ''newNonce'' of
               Inl e \<Rightarrow> res = Inl e \<and> trace w' = trace w
             | Inr u \<Rightarrow>
                 trace w' = trace w @ [Sent \<lparr>rq_method = Some ''HEAD'', rq_url = u,
                                             rq_json = NoJson, rq_headers = Map.empty\<rparr>] \<and>
                 res = (case net w (nreq w) of
                          Inl e \<Rightarrow> Inl (Foreign e)
                        | Inr resp \<Rightarrow> Inr (case headers resp ''replay-nonce'' of
                                             None \<Rightarrow> NUndefined | Some s \<Rightarrow> NString s)))))"
proof -
  assume run: "getNonce (Client me) w = (res, me', w')"
  obtain hit rest w1 where sf: "shiftFresh (nonces me) w = (hit, rest, w1)"
    by (cases "shiftFresh (nonces me) w") auto
  from shiftFresh_char[OF sf] obtain k where k: "k \<le> length (nonces me)"
    "\<forall>i<k. expired (clock w (ticks w + i)) (nonces me ! i)"
    "if k < length (nonces me)
       then hit = Some (nonces me ! k) \<and> rest = drop (Suc k) (nonces me) \<and>
            \<not> expired (clock w (ticks w + k)) (nonces me ! k) \<and> w1 = w\<lparr>ticks := ticks w + Suc k\<rparr>
       else hit = None \<and> rest = [] \<and> w1 = w\<lparr>ticks := ticks w + k\<rparr>"
    by blast
  have push: "fst (setNonce me n w) = me\<lparr>nonces := \<lparr>nonce = n, createdAt = clock w (ticks w)\<rparr> # nonces me\<rparr>"
    by (simp add: setNonce_def dateNow_def)
  show ?thesis
  proof (cases "k < length (nonces me)")
    case True
    with k(3) run sf have "res = Inr (NRecord (nonces me ! k))"
      "me' = Client (me\<lparr>nonces := drop (Suc k) (nonces me)\<rparr>)" "trace w' = trace w"
      by auto
    with True k push show ?thesis
      by (intro conjI exI[of _ k]) (auto simp: expired_def)
  next
    case False
    with k(3) have hit: "hit = None" "rest = []" "w1 = w\<lparr>ticks := ticks w + k\<rparr>" by auto
    have "me' = Client (me\<lparr>nonces := []\<rparr>)"
      using run sf hit by (auto split: sum.splits prod.splits)
    moreover have "case getProp (directoryUrls me) ''newNonce'' of
               Inl e \<Rightarrow> res = Inl e \<and> trace w' = trace w
             | Inr u \<Rightarrow>
                 trace w' = trace w @ [Sent \<lparr>rq_method = Some ''HEAD'', rq_url = u,
                                             rq_json = NoJson, rq_headers = Map.empty\<rparr>] \<and>
                 res = (case net w (nreq w) of
                          Inl e \<Rightarrow> Inl (Foreign e)
                        | Inr resp \<Rightarrow> Inr (case headers resp ''replay-nonce'' of
                                             None \<Rightarrow> NUndefined | Some s \<Rightarrow> NString s))"
      using run sf hit
      by (auto simp: me_request_def headerNonce_def split: sum.splits prod.splits)
    ultimately show ?thesis using False k push
      by (intro conjI exI[of _ k]) (auto simp: expired_def)
  qed
qed

text \<open>On the sample cache the expired front entry is dropped and the second one is handed out.\<close>

theorem getNonce_lifo_expiry_witness:
  "getNonce (Client sampleCache) (sampleWorld JNull) =
     (Inr (NRecord \<lparr>nonce = ''ok'', createdAt = 0\<rparr>),
      Client (sampleCache\<lparr>nonces := [\<lparr>nonce = ''older'', createdAt = - 5\<rparr>]\<rparr>),
      (sampleWorld JNull)\<lparr>ticks := 2\<rparr>) \<and>
   fst (setNonce sampleCache ''new'' (sampleWorld JNull)) =
     sampleCache\<lparr>nonces := \<lparr>nonce = ''new'', createdAt = 0\<rparr> # nonces sampleCache\<rparr>"
proof -
  have run: "getNonce (Client sampleCache) (sampleWorld JNull) =
     (Inr (NRecord \<lparr>nonce = ''ok'', createdAt = 0\<rparr>),
      Client (sampleCache\<lparr>nonces := [\<lparr>nonce = ''older'', createdAt = - 5\<rparr>]\<rparr>),
      (sampleWorld JNull)\<lparr>ticks := 2\<rparr>)"
    by (simp add: sampleCache_def sampleWorld_def readyEngine_def freshEngine_def dateNow_def expired_def)
  from getNonce_lifo_expiry[OF run, of "''new''"] run show ?thesis
    by (simp add: sampleWorld_def)
qed

text \<open>
  Claim C4. The two branches of \<^verbatim>\<open>_getNonce\<close> resolve with values of different shapes.
  On a cache hit the \<open>nonce\<close> field of the protected header that \<^verbatim>\<open>_jwsRequest\<close> has signed
  and posts is the cache record \<^verbatim>\<open>{ nonce, createdAt }\<close> itself; only on the HEAD path,
  taken when the loop has emptied the cache, is it the bare \<^verbatim>\<open>replay-nonce\<close> header value
  (a string, or undefined when the header is missing).
\<close>

theorem jwsRequest_nonce_shape:
  assumes run: "jwsRequest d (Client me) (Some b) w = (res, me', w')"
    and loop: "shiftFresh (nonces me) w = (hit, rest, w1)"
  shows "case hit of
           Some r \<Rightarrow>
             r \<in> set (nonces me) \<and>
             (let prot = (bo_protected b)\<lparr>p_nonce := NRecord r, p_url := bo_url b\<rparr>
              in case signJws d (ByJwk (keyJson (privateKeyJwk (accountKeypair (bo_options b))))) prot (bo_payload b) of
                   Inl e \<Rightarrow> res = Inl (Foreign e) \<and> trace w' = trace w
                 | Inr sig \<Rightarrow>
                     trace w' = trace w @
                       [Sent (joseOpts \<lparr>rq_method = None, rq_url = bo_url b,
                                        rq_json = JsonBody \<lparr>j_protected = prot, j_payload = bo_payload b,
                                                            j_signature = sig\<rparr>,
                                        rq_headers = Map.empty\<rparr>)])
         | None \<Rightarrow>
             rest = [] \<and>
             (case getProp (directoryUrls me) ''newNonce'' of
                Inl e \<Rightarrow> res = Inl e \<and> trace w' = trace w
              | Inr u \<Rightarrow>
                  (let head = Sent \<lparr>rq_method = Some ''HEAD'', rq_url = u, rq_json = NoJson,
                                    rq_headers = Map.empty\<rparr>
                   in case net w (nreq w) of
                        Inl e \<Rightarrow> res = Inl (Foreign e) \<and> trace w' = trace w @ [head]
                      | Inr resp \<Rightarrow>
                          (let prot = (bo_protected b)
                                 \<lparr>p_nonce := (case headers resp ''replay-nonce'' of
                                                None \<Rightarrow> NUndefined | Some s \<Rightarrow> NString s),
                                  p_url := bo_url b\<rparr>
                           in case signJws d (ByJwk (keyJson (privateKeyJwk (accountKeypair (bo_options b))))) prot (bo_payload b) of
                                Inl e \<Rightarrow> res = Inl (Foreign e) \<and> trace w' = trace w @ [head]
                              | Inr sig \<Rightarrow>
                                  trace w' = trace w @
                                    [head,
                                     Sent (joseOpts \<lparr>rq_method = None, rq_url = bo_url b,
                                                     rq_json = JsonBody \<lparr>j_protected = prot,
                                                                         j_payload = bo_payload b,
                                                                         j_signature = sig\<rparr>,
                                                     rq_headers = Map.empty\<rparr>)])))"
proof -
  from shiftFresh_world[OF loop]
  have w1: "trace w1 = trace w" "nreq w1 = nreq w" "net w1 = net w" by auto
  show ?thesis
  proof (cases hit)
    case None
    with shiftFresh_char[OF loop] have "rest = []" by (auto split: if_splits)
    then show ?thesis using run loop None w1
      by (auto simp: jwsRequest_def me_request_def headerNonce_def ACME_request_def
          setNonce_def dateNow_def Let_def split: sum.splits prod.splits option.splits if_splits)
  next
    case (Some r)
    from shiftFresh_char[OF loop] Some have "r \<in> set (nonces me)"
      by (auto split: if_splits)
    then show ?thesis using run loop Some w1
      by (auto simp: jwsRequest_def me_request_def headerNonce_def ACME_request_def
          setNonce_def dateNow_def Let_def split: sum.splits prod.splits option.splits if_splits)
  qed
qed

text \<open>A cache hit sends the record; an empty cache sends the string of the HEAD reply.\<close>

theorem jwsRequest_nonce_shape_witness:
  "p_nonce (j_protected (case rq_json (case last (trace (snd (snd (jwsRequest sampleDeps (Client sampleCache) (Some sampleOpts) (sampleWorld JNull))))) of Sent rq \<Rightarrow> rq) of JsonBody j \<Rightarrow> j))
     = NRecord \<lparr>nonce = ''ok'', createdAt = 0\<rparr> \<and>
   p_nonce (j_protected (case rq_json (case last (trace (snd (snd (jwsRequest sampleDeps (Client readyEngine) (Some sampleOpts) (sampleWorld JNull))))) of Sent rq \<Rightarrow> rq) of JsonBody j \<Rightarrow> j))
     = NString ''n''"
proof -
  obtain r1 m1 v1 where a: "jwsRequest sampleDeps (Client sampleCache) (Some sampleOpts) (sampleWorld JNull) = (r1, m1, v1)"
    by (cases "jwsRequest sampleDeps (Client sampleCache) (Some sampleOpts) (sampleWorld JNull)") auto
  have la: "shiftFresh (nonces sampleCache) (sampleWorld JNull) =
      (Some \<lparr>nonce = ''ok'', createdAt = 0\<rparr>, [\<lparr>nonce = ''older'', createdAt = - 5\<rparr>], (sampleWorld JNull)\<lparr>ticks := 2\<rparr>)"
    by (simp add: sampleCache_def sampleWorld_def readyEngine_def freshEngine_def dateNow_def expired_def)
  obtain r2 m2 v2 where b: "jwsRequest sampleDeps (Client readyEngine) (Some sampleOpts) (sampleWorld JNull) = (r2, m2, v2)"
    by (cases "jwsRequest sampleDeps (Client readyEngine) (Some sampleOpts) (sampleWorld JNull)") auto
  have lb: "shiftFresh (nonces readyEngine) (sampleWorld JNull) = (None, [], sampleWorld JNull)"
    by (simp add: readyEngine_def freshEngine_def)
  from jwsRequest_nonce_shape[OF a la] jwsRequest_nonce_shape[OF b lb] a b show ?thesis
    by (simp add: sampleDeps_def sampleOpts_def sampleWorld_def readyEngine_def freshEngine_def
        sampleDirectory_def sampleReply_def joseOpts_def)
qed

subsection \<open>Every nonce that goes out came from the server, once\<close>

lemmas sample_defs = readyEngine_def freshEngine_def sampleWorld_def sampleDeps_def
        sampleOpts_def sampleOptions_def keyJson_def sampleDirectory_def sampleReply_def sampleCache_def
lemmas layer_defs = jwsRequest_def me_request_def ACME_request_def
        joseOpts_def setNonce_def dateNow_def expired_def headerNonce_def

lemma mset_le: "(A::'a multiset) \<subseteq># B \<Longrightarrow> A \<subseteq># add_mset x B"
  by (meson multi_psub_of_add_self subset_mset.le_less subset_mset.le_less_trans)

lemma shiftFresh_mset:
  "shiftFresh cache w = (hit, rest, w1) \<Longrightarrow>
     mset (map nonce rest) + mset (case hit of None \<Rightarrow> [] | Some r \<Rightarrow> [nonce r]) \<subseteq># mset (map nonce cache)"
proof (induction cache arbitrary: w)
  case Nil
  then show ?case by simp
next
  case (Cons r cache)
  show ?case
  proof (cases "expired (clock w (ticks w)) r")
    case True
    with Cons.prems have "shiftFresh cache (w\<lparr>ticks := Suc (ticks w)\<rparr>) = (hit, rest, w1)"
      by (simp add: dateNow_def)
    from Cons.IH[OF this] show ?thesis
      by (simp add: mset_le)
  next
    case False
    with Cons.prems show ?thesis by (auto simp: dateNow_def)
  qed
qed

lemma ACME_request_inv:
  assumes "ACME_request me opts w = (res, me', w')"
  shows "net w' = net w \<and> nreq w' = Suc (nreq w) \<and> trace w' = trace w @ [Sent (joseOpts opts)] \<and>
         mset (map nonce (nonces me')) \<subseteq># mset (map nonce (nonces me)) + mset (replyNonce (net w (nreq w)))"
  using assms
  by (auto simp: ACME_request_def me_request_def setNonce_def dateNow_def replyNonce_def
      split: sum.splits option.splits if_splits prod.splits)

lemma getNonce_inv:
  assumes "getNonce (Client me) w = (res, m', w')"
  shows "\<exists>me'. m' = Client me' \<and> net w' = net w \<and> nreq w \<le> nreq w' \<and> sentNonces w' = sentNonces w \<and>
           mset (map nonce (nonces me')) + mset (case res of Inl e \<Rightarrow> [] | Inr n \<Rightarrow> nonceString n)
             \<subseteq># mset (map nonce (nonces me)) + mset (concat (map (\<lambda>k. replyNonce (net w k)) [nreq w..<nreq w']))"
proof -
  obtain hit rest w1 where sf: "shiftFresh (nonces me) w = (hit, rest, w1)"
    by (cases "shiftFresh (nonces me) w") auto
  from shiftFresh_world[OF sf]
  have w1: "trace w1 = trace w" "nreq w1 = nreq w" "net w1 = net w" by auto
  from shiftFresh_mset[OF sf] have sub: "mset (map nonce rest) + mset (case hit of None \<Rightarrow> [] | Some r \<Rightarrow> [nonce r]) \<subseteq># mset (map nonce (nonces me))" .
  show ?thesis
  proof (cases hit)
    case (Some r)
    with assms sf sub w1 show ?thesis by (auto simp: sentNonces_def)
  next
    case None
    with assms sf sub w1 show ?thesis
      by (auto simp: sentNonces_def me_request_def headerNonce_def replyNonce_def
          split: sum.splits option.splits prod.splits intro: subset_mset.add_increasing2)
  qed
qed

lemma mset_step:
  fixes A :: "'a multiset"
  assumes "A1 + N \<subseteq># A + X" and "A2 \<subseteq># A1 + R"
  shows "A2 + (S + N) \<subseteq># A + S + (X + R)"
proof -
  have "A2 + (S + N) \<subseteq># (A1 + R) + (S + N)"
    using assms(2) by simp
  also have "\<dots> = (A1 + N) + (S + R)"
    by (simp add: ac_simps)
  also have "\<dots> \<subseteq># (A + X) + (S + R)"
    using assms(1) by simp
  finally show ?thesis by (simp add: ac_simps)
qed

lemma eventNonce_joseOpts: "eventNonce (Sent (joseOpts opts)) = eventNonce (Sent opts)"
  by (simp add: joseOpts_def split: json_opt.splits)

lemma jwsRequest_inv:
  assumes run: "jwsRequest d (Client me) (Some b) w = (res, m', w')"
  shows "\<exists>me'. m' = Client me' \<and> net w' = net w \<and> nreq w \<le> nreq w' \<and>
           mset (map nonce (nonces me')) + mset (sentNonces w')
             \<subseteq># mset (map nonce (nonces me)) + mset (sentNonces w)
                 + mset (concat (map (\<lambda>k. replyNonce (net w k)) [nreq w..<nreq w']))"
proof -
  obtain r1 m1 w1 where gn: "getNonce (Client me) w = (r1, m1, w1)"
    by (cases "getNonce (Client me) w") auto
  from getNonce_inv[OF gn] obtain me1 where m1: "m1 = Client me1" and
    w1: "net w1 = net w" "nreq w \<le> nreq w1" "sentNonces w1 = sentNonces w" and
    sub1: "mset (map nonce (nonces me1)) + mset (case r1 of Inl e \<Rightarrow> [] | Inr n \<Rightarrow> nonceString n)
             \<subseteq># mset (map nonce (nonces me)) + mset (concat (map (\<lambda>k. replyNonce (net w k)) [nreq w..<nreq w1]))"
    by blast
  have weak: "mset (map nonce (nonces me1)) + mset (sentNonces w1)
             \<subseteq># mset (map nonce (nonces me)) + mset (sentNonces w)
                 + mset (concat (map (\<lambda>k. replyNonce (net w k)) [nreq w..<nreq w1]))"
  proof -
    have "mset (map nonce (nonces me1))
            \<subseteq># mset (map nonce (nonces me1)) + mset (case r1 of Inl e \<Rightarrow> [] | Inr n \<Rightarrow> nonceString n)"
      by simp
    from subset_mset.order_trans[OF this sub1]
    have "mset (map nonce (nonces me1)) + mset (sentNonces w)
            \<subseteq># (mset (map nonce (nonces me)) + mset (concat (map (\<lambda>k. replyNonce (net w k)) [nreq w..<nreq w1])))
                 + mset (sentNonces w)"
      by (simp only: mset_subset_eq_mono_add_right_cancel)
    then show ?thesis by (simp add: w1(3) ac_simps)
  qed
  show ?thesis
  proof (cases r1)
    case (Inl e)
    with run gn m1 have "m' = Client me1" "w' = w1" by (auto simp: jwsRequest_def)
    with weak w1 show ?thesis by auto
  next
    case (Inr n)
    let ?prot = "(bo_protected b)\<lparr>p_nonce := n, p_url := bo_url b\<rparr>"
    show ?thesis
    proof (cases "signJws d (ByJwk (keyJson (privateKeyJwk (accountKeypair (bo_options b))))) ?prot (bo_payload b)")
      case (Inl e)
      with run gn m1 Inr have "m' = Client me1" "w' = w1" by (auto simp: jwsRequest_def)
      with weak w1 show ?thesis by auto
    next
      case sig: (Inr sg)
      let ?opts = "\<lparr>rq_method = None, rq_url = bo_url b,
                     rq_json = JsonBody \<lparr>j_protected = ?prot, j_payload = bo_payload b, j_signature = sg\<rparr>,
                     rq_headers = Map.empty\<rparr>"
      obtain r2 c2 w2 where rq: "ACME_request me1 ?opts w1 = (r2, c2, w2)"
        by (cases "ACME_request me1 ?opts w1") auto
      with run gn m1 Inr sig have res: "m' = Client c2" "w' = w2"
        by (auto simp: jwsRequest_def)
      from ACME_request_inv[OF rq] have w2: "net w2 = net w1" "nreq w2 = Suc (nreq w1)"
        "trace w2 = trace w1 @ [Sent (joseOpts ?opts)]"
        and sub2: "mset (map nonce (nonces c2)) \<subseteq># mset (map nonce (nonces me1)) + mset (replyNonce (net w1 (nreq w1)))"
        by auto
      have s2: "sentNonces w2 = sentNonces w @ nonceString n"
        using w2(3) w1(3) by (simp add: sentNonces_def joseOpts_def)
      have up: "[nreq w..<nreq w2] = [nreq w..<nreq w1] @ [nreq w1]"
        using w2(2) w1(2) by simp
      from sub1 Inr have sub1': "mset (map nonce (nonces me1)) + mset (nonceString n)
             \<subseteq># mset (map nonce (nonces me)) + mset (concat (map (\<lambda>k. replyNonce (net w k)) [nreq w..<nreq w1]))"
        by simp
      from mset_step[OF sub1' sub2, of "mset (sentNonces w)"]
      have "mset (map nonce (nonces c2)) + mset (sentNonces w2)
             \<subseteq># mset (map nonce (nonces me)) + mset (sentNonces w)
                 + mset (concat (map (\<lambda>k. replyNonce (net w k)) [nreq w..<nreq w2]))"
        by (simp add: s2 up w1(1))
      with res w2 w1 show ?thesis by auto
    qed
  qed
qed

lemma issued_split:
  assumes "nreq w \<le> nreq w'" and "net w' = net w"
  shows "issued w' = issued w @ concat (map (\<lambda>k. replyNonce (net w k)) [nreq w..<nreq w'])"
proof -
  from assms(1) obtain m where m: "nreq w' = nreq w + m" by (auto simp: le_iff_add)
  show ?thesis
    by (simp add: issued_def assms(2) m upt_add_eq_append[of 0 "nreq w" m])
qed

lemma jwsRequests_inv:
  "jwsRequests d me bs w = (me', w') \<Longrightarrow>
     mset (map nonce (nonces me)) + mset (sentNonces w) \<subseteq># mset (issued w) \<Longrightarrow>
     mset (map nonce (nonces me')) + mset (sentNonces w') \<subseteq># mset (issued w')"
proof (induction bs arbitrary: me w)
  case Nil
  then show ?case by simp
next
  case (Cons b bs)
  obtain r m1 w1 where step: "jwsRequest d (Client me) (Some b) w = (r, m1, w1)"
    by (cases "jwsRequest d (Client me) (Some b) w") auto
  from jwsRequest_inv[OF step] obtain me1 where m1: "m1 = Client me1" and
    w1: "net w1 = net w" "nreq w \<le> nreq w1" and
    sub: "mset (map nonce (nonces me1)) + mset (sentNonces w1)
             \<subseteq># mset (map nonce (nonces me)) + mset (sentNonces w)
                 + mset (concat (map (\<lambda>k. replyNonce (net w k)) [nreq w..<nreq w1]))"
    by blast
  have "mset (map nonce (nonces me1)) + mset (sentNonces w1) \<subseteq># mset (issued w1)"
  proof -
    have "mset (map nonce (nonces me)) + mset (sentNonces w)
                 + mset (concat (map (\<lambda>k. replyNonce (net w k)) [nreq w..<nreq w1]))
          \<subseteq># mset (issued w) + mset (concat (map (\<lambda>k. replyNonce (net w k)) [nreq w..<nreq w1]))"
      using Cons.prems(2) by simp
    also have "\<dots> = mset (issued w1)"
      by (simp add: issued_split[OF w1(2) w1(1)])
    finally show ?thesis using sub by (rule subset_mset.order_trans[rotated])
  qed
  moreover from Cons.prems(1) step m1 have "jwsRequests d me1 bs w1 = (me', w')" by simp
  ultimately show ?case by (rule Cons.IH[rotated])
qed

lemma distinct_mset_sub: "mset xs \<subseteq># mset ys \<Longrightarrow> distinct ys \<Longrightarrow> distinct xs"
proof -
  assume sub: "mset xs \<subseteq># mset ys" and d: "distinct ys"
  have "count (mset xs) a = (if a \<in> set xs then 1 else 0)" for a
  proof -
    have "count (mset xs) a \<le> count (mset ys) a"
      using sub by (rule mset_subset_eq_count)
    also have "\<dots> \<le> 1"
      using d by (simp add: distinct_count_atmost_1)
    finally have le: "count (mset xs) a \<le> 1" .
    show ?thesis
    proof (cases "a \<in> set xs")
      case True
      then have "count (mset xs) a \<noteq> 0" by (simp add: count_mset_0_iff)
      with le have "count (mset xs) a = 1" by linarith
      with True show ?thesis by simp
    next
      case False
      then show ?thesis by (simp add: count_mset_0_iff)
    qed
  qed
  then show "distinct xs" by (simp add: distinct_count_atmost_1)
qed

text \<open>
  Claim C2 as stated fails against a server that repeats a nonce: the engine never compares
  nonce values. Here every reply carries \<^verbatim>\<open>replay-nonce: n\<close>; the first signed request
  sends the \<open>n\<close> of the HEAD reply, its own reply puts \<open>n\<close> on the cache, and the second
  signed request sends it again.
\<close>

theorem nonce_repeated_counterexample:
  "sentNonces (snd (jwsRequests sampleDeps readyEngine [sampleOpts, sampleOpts] repeatWorld)) = [''n'', ''n''] \<and>
   \<not> distinct (sentNonces (snd (jwsRequests sampleDeps readyEngine [sampleOpts, sampleOpts] repeatWorld))) \<and>
   nonces readyEngine = [] \<and> sentNonces repeatWorld = []"
proof -
  have s: "sentNonces (snd (jwsRequests sampleDeps readyEngine [sampleOpts, sampleOpts] repeatWorld)) = [''n'', ''n'']"
    by (simp add: sample_defs layer_defs sentNonces_def repeatWorld_def)
  have "nonces readyEngine = []" "sentNonces repeatWorld = []"
    by (simp_all add: readyEngine_def freshEngine_def sentNonces_def repeatWorld_def)
  then show ?thesis unfolding s by simp
qed

text \<open>
  Claim C2, amended. \<^verbatim>\<open>_getNonce\<close> shifts a record off the cache before it is handed to the
  signer, and the nonce of a HEAD reply is never put on the cache, so every nonce that the
  transport delivered is dispensed to at most one signing operation. For a run of signed
  requests on one engine that starts in a state where all cached and sent nonces were
  delivered by the transport (as in the state \<^verbatim>\<open>ACME.create\<close> leaves), and against a
  server that has issued no \<^verbatim>\<open>Replay-Nonce\<close> value twice, no nonce value appears in the
  protected headers of two JWS requests, and none that went out is still in the cache.
\<close>

theorem nonce_single_use:
  assumes "jwsRequests d me bs w = (me', w')"
    and "mset (map nonce (nonces me)) + mset (sentNonces w) \<subseteq># mset (issued w)"
    and "distinct (issued w')"
  shows "distinct (sentNonces w' @ map nonce (nonces me'))"
proof -
  from jwsRequests_inv[OF assms(1,2)]
  have "mset (sentNonces w' @ map nonce (nonces me')) \<subseteq># mset (issued w')"
    by (simp add: ac_simps)
  then show ?thesis using assms(3) by (rule distinct_mset_sub)
qed


text \<open>Three signed requests in a row: one HEAD nonce, then two cached ones, all different.\<close>

theorem nonce_single_use_witness:
  "sentNonces (snd (jwsRequests sampleDeps readyEngine [sampleOpts, sampleOpts, sampleOpts] (sampleWorld JNull)))
     = [''n'', ''nx'', ''nxx''] \<and>
   map nonce (nonces (fst (jwsRequests sampleDeps readyEngine [sampleOpts, sampleOpts, sampleOpts] (sampleWorld JNull))))
     = [''nxxx''] \<and>
   distinct (sentNonces (snd (jwsRequests sampleDeps readyEngine [sampleOpts, sampleOpts, sampleOpts] (sampleWorld JNull)))
     @ map nonce (nonces (fst (jwsRequests sampleDeps readyEngine [sampleOpts, sampleOpts, sampleOpts] (sampleWorld JNull)))))"
proof -
  let ?run = "jwsRequests sampleDeps readyEngine [sampleOpts, sampleOpts, sampleOpts] (sampleWorld JNull)"
  have run: "?run = (fst ?run, snd ?run)" by simp
  have init: "mset (map nonce (nonces readyEngine)) + mset (sentNonces (sampleWorld JNull)) \<subseteq># mset (issued (sampleWorld JNull))"
    by (simp add: readyEngine_def freshEngine_def sentNonces_def sampleWorld_def issued_def)
  have s: "sentNonces (snd ?run) = [''n'', ''nx'', ''nxx'']"
    by (simp add: sample_defs layer_defs sentNonces_def)
  have c: "map nonce (nonces (fst ?run)) = [''nxxx'']"
    by (simp add: sample_defs layer_defs)
  have i: "issued (snd ?run) = [''n'', ''nx'', ''nxx'', ''nxxx'']"
    by (simp add: sample_defs layer_defs issued_def replyNonce_def)
  have d: "distinct (issued (snd ?run))" unfolding i by simp
  from nonce_single_use[OF run init d] show ?thesis unfolding s c by simp
qed


subsection \<open>Which responses are scanned for a nonce\<close>

text \<open>
  Claim C1 as stated fails for the directory GET: \<^verbatim>\<open>me.init\<close> goes through
  \<^verbatim>\<open>ACME._directory\<close>, which calls the transport directly. The reply below carries
  \<^verbatim>\<open>replay-nonce: n\<close>, \<^verbatim>\<open>init\<close> succeeds, and the cache is still empty.
\<close>

theorem init_skips_replay_nonce:
  "fst (init freshEngine (JStr ''https://ca.test/dir'') (sampleWorld sampleDirectory)) = Inr sampleDirectory \<and>
   trace (snd (snd (init freshEngine (JStr ''https://ca.test/dir'') (sampleWorld sampleDirectory)))) =
     [Sent \<lparr>rq_method = Some ''GET'', rq_url = JStr ''https://ca.test/dir'', rq_json = JsonTrue,
            rq_headers = Map.empty\<rparr>] \<and>
   replyNonce (net (sampleWorld sampleDirectory) 0) = [''n''] \<and>
   nonces (fst (snd (init freshEngine (JStr ''https://ca.test/dir'') (sampleWorld sampleDirectory)))) = []"
  by (simp add: init_def fin_def ACME_directory_def me_request_def propTruthy_def sample_defs replyNonce_def)

text \<open>
  Claim C1, amended. For every response that comes back through \<^verbatim>\<open>ACME._request\<close>, the
  function that carries the signed JWS POSTs, a non-empty \<^verbatim>\<open>replay-nonce\<close> header is
  pushed onto the front of the nonce cache, stamped with the current time, before the
  response is returned; without such a header, or when the transport rejects, the cache
  is left as it was.
\<close>

theorem ACME_request_pushes_nonce:
  assumes "ACME_request me opts w = (res, me', w')"
  shows "case net w (nreq w) of
           Inl e \<Rightarrow> res = Inl (Foreign e) \<and> nonces me' = nonces me
         | Inr resp \<Rightarrow>
             res = Inr resp \<and>
             (case headers resp ''replay-nonce'' of
                None \<Rightarrow> nonces me' = nonces me
              | Some n \<Rightarrow>
                  nonces me' = (if n = [] then nonces me
                                else \<lparr>nonce = n, createdAt = clock w (ticks w)\<rparr> # nonces me))"
  using assms
  by (auto simp: ACME_request_def me_request_def setNonce_def dateNow_def
      split: sum.splits option.splits if_splits prod.splits)

text \<open>The first reply of the sample server carries the nonce \<open>n\<close>; it ends up in the cache.\<close>

theorem ACME_request_pushes_nonce_witness:
  "nonces (fst (snd (ACME_request readyEngine
      \<lparr>rq_method = None, rq_url = JStr ''https://ca.test/acct'', rq_json = NoJson, rq_headers = Map.empty\<rparr>
      (sampleWorld JNull)))) = [\<lparr>nonce = ''n'', createdAt = 0\<rparr>]"
proof -
  let ?run = "ACME_request readyEngine
      \<lparr>rq_method = None, rq_url = JStr ''https://ca.test/acct'', rq_json = NoJson, rq_headers = Map.empty\<rparr>
      (sampleWorld JNull)"
  have run: "?run = (fst ?run, fst (snd ?run), snd (snd ?run))" by simp
  from ACME_request_pushes_nonce[OF run] show ?thesis
    by (simp add: sampleWorld_def sampleReply_def readyEngine_def freshEngine_def)
qed

section \<open>Properties of account registration\<close>


















section \<open>Properties of the challenge derivation\<close>








section \<open>Properties of the challenge and finalize drivers\<close>

text \<open>
  With the options literal in the place of \<^verbatim>\<open>me\<close>, \<^verbatim>\<open>_getNonce\<close> reads \<^verbatim>\<open>_nonces\<close> of an
  object that has none, and the call throws before anything is sent.
\<close>

lemma jwsRequest_Literal:
  "jwsRequest d (Literal b) x w = (Inl (TypeError ''Cannot read property shift of undefined''), Literal b, w)"
  by (simp add: jwsRequest_def)

lemma respondToChallenge_throws:
  "respondToChallenge d env cnt w = (Inl (TypeError ''Cannot read property shift of undefined''), cnt, w)"
  by (simp add: jwsRequest_Literal)

lemma deactivate_throws:
  "deactivate d env w = (Inl (TypeError ''Cannot read property shift of undefined''), w)"
  by (simp add: deactivate_def jwsRequest_Literal)

text \<open>
  A run of \<^verbatim>\<open>pollStatus\<close> only appends to the trace, and what it appends holds at most
  \<open>MAX_POLL - cnt\<close> polls: each poll is preceded by the test of the counter and followed
  by its increment.
\<close>

lemma poll_trace:
  shows "pollStatus d env cnt w = (res, cnt', w') \<Longrightarrow>
      (\<exists>evs. trace w' = trace w @ evs \<and> length (filter (isPoll (pe_auth env)) evs) \<le> MAX_POLL env - cnt)"
    and "respondToChallenge d env cnt w = (res, cnt', w') \<Longrightarrow>
      (\<exists>evs. trace w' = trace w @ evs \<and> length (filter (isPoll (pe_auth env)) evs) \<le> MAX_POLL env - cnt)"
proof (induction d env cnt w and d env cnt w arbitrary: res cnt' w' and res cnt' w'
       rule: pollStatus_respondToChallenge.induct)
  case (1 d env cnt w)
  show ?case
  proof (cases "MAX_POLL env \<le> cnt")
    case True
    with "1.prems" show ?thesis by (intro exI[of _ "[]"]) simp
  next
    case False
    let ?w1 = "w\<lparr>nreq := Suc (nreq w), trace := trace w @ [Sent (pollRequest env)]\<rparr>"
    have poll: "isPoll (pe_auth env) (Sent (pollRequest env))"
      by (simp add: isPoll_def pollRequest_def)
    have nowait: "\<not> isPoll (pe_auth env) (Waited n)" "\<not> isPoll (pe_auth env) (Called f)" for n f
      by (simp_all add: isPoll_def)
    show ?thesis
    proof (cases "net w (nreq w)")
      case (Inl e)
      with "1.prems" False have "trace w' = trace w @ [Sent (pollRequest env)]"
        by (auto simp: me_request_def)
      with False poll show ?thesis by (intro exI[of _ "[Sent (pollRequest env)]"]) simp
    next
      case (Inr resp)
      then have mr: "me_request (pollRequest env) w = (Inr resp, ?w1)"
        by (simp add: me_request_def)
      show ?thesis
      proof (cases "getProp (body resp) ''status''")
        case (Inl e)
        with "1.prems" False mr have "trace w' = trace w @ [Sent (pollRequest env)]"
          by auto
        with False poll show ?thesis by (intro exI[of _ "[Sent (pollRequest env)]"]) simp
      next
        case st: (Inr status)
        consider (processing) "status = JStr ''processing''"
          | (pending) "status = JStr ''pending''"
          | (valid) "status = JStr ''valid''"
          | (other) "status \<noteq> JStr ''processing''" "status \<noteq> JStr ''pending''" "status \<noteq> JStr ''valid''"
          by blast
        then show ?thesis
        proof cases
          case processing
          with "1.prems" False mr st
          have rec: "pollStatus d env (cnt + 1) (wait (Some (RETRY_INTERVAL env)) ?w1) = (res, cnt', w')"
            by simp
          from "1.IH"(1)[OF False mr[symmetric] refl st processing rec]
          obtain evs where evs: "trace w' = trace (wait (Some (RETRY_INTERVAL env)) ?w1) @ evs"
            "length (filter (isPoll (pe_auth env)) evs) \<le> MAX_POLL env - (cnt + 1)"
            by blast
          let ?all = "Sent (pollRequest env) # Waited (if RETRY_INTERVAL env = 0 then 1100 else RETRY_INTERVAL env) # evs"
          have "trace w' = trace w @ ?all"
            using evs(1) by (simp add: wait_def)
          moreover have "length (filter (isPoll (pe_auth env)) ?all) \<le> MAX_POLL env - cnt"
            using evs(2) False poll nowait by simp
          ultimately show ?thesis by blast
        next
          case pending
          with "1.prems" False mr st
          have "trace w' = trace w @ [Sent (pollRequest env), Waited (if RETRY_INTERVAL env = 0 then 1100 else RETRY_INTERVAL env)]"
            by (auto simp: respondToChallenge_throws deactivate_throws wait_def
                simp del: respondToChallenge.simps split: if_splits)
          with False poll nowait show ?thesis
            by (intro exI[of _ "[Sent (pollRequest env), Waited (if RETRY_INTERVAL env = 0 then 1100 else RETRY_INTERVAL env)]"]) simp
        next
          case valid
          with "1.prems" False mr st
          have "trace w' = trace (callRemoveChallenge env ?w1)"
            by auto
          then have "trace w' = trace w @ [Sent (pollRequest env)] \<or>
                     trace w' = trace w @ [Sent (pollRequest env), Called ''removeChallenge'']"
            by (auto simp: callRemoveChallenge_def split: sum.splits)
          then show ?thesis
          proof
            assume "trace w' = trace w @ [Sent (pollRequest env)]"
            with False poll show ?thesis by (intro exI[of _ "[Sent (pollRequest env)]"]) simp
          next
            assume "trace w' = trace w @ [Sent (pollRequest env), Called ''removeChallenge'']"
            with False poll nowait show ?thesis
              by (intro exI[of _ "[Sent (pollRequest env), Called ''removeChallenge'']"]) simp
          qed
        next
          case other
          with "1.prems" False mr st have "trace w' = trace w @ [Sent (pollRequest env)]"
            by auto
          with False poll show ?thesis by (intro exI[of _ "[Sent (pollRequest env)]"]) simp
        qed
      qed
    qed
  qed
next
  case (2 d env cnt w)
  then show ?case 
    by (intro exI[of _ "[]"]) (simp add: respondToChallenge_throws del: respondToChallenge.simps)
qed


text \<open>Entered with the counter at \<open>MAX_POLL\<close>, \<^verbatim>\<open>pollStatus\<close> sends nothing and rejects.\<close>

lemma pollStatus_stuck:
  "MAX_POLL env \<le> cnt \<Longrightarrow>
   pollStatus d env cnt w =
     (Inl (Err (''[acme-v2] stuck in bad pending/processing state for '' @ [CHR 0x27] @ toStr (altname env)
                @ [CHR 0x27]) None), cnt, w)"
  by (simp add: stuckError_def)

text \<open>
  Claim C5 says that on a \<^verbatim>\<open>pending\<close> poll the driver waits and re-POSTs the accept
  request, or first POSTs \<^verbatim>\<open>{"status":"deactivated"}\<close> and waits \<open>DEAUTH_INTERVAL\<close> once the
  count has reached \<open>MAX_PEND\<close>. The code calls \<^verbatim>\<open>ACME._jwsRequest\<close> without \<^verbatim>\<open>me\<close> in
  \<^verbatim>\<open>respondToChallenge\<close> and in \<^verbatim>\<open>deactivate\<close>: both end in a \<^verbatim>\<open>TypeError\<close> and send
  nothing. So \<^verbatim>\<open>_postChallenge\<close> fails before its first request, and \<^verbatim>\<open>pollStatus\<close>, after
  a \<^verbatim>\<open>pending\<close> answer and the wait, fails in the same way instead of POSTing.
\<close>

theorem postChallenge_type_error:
  "respondToChallenge d env cnt w = (Inl (TypeError ''Cannot read property shift of undefined''), cnt, w) \<and>
   deactivate d env w = (Inl (TypeError ''Cannot read property shift of undefined''), w) \<and>
   postChallenge sampleDeps readyEngine keyedOptions sampleAuth (statusWorld ''pending'') =
     (Inl (TypeError ''Cannot read property shift of undefined''), statusWorld ''pending'') \<and>
   pollStatus sampleDeps sampleEnv 0 (statusWorld ''pending'') =
     (Inl (TypeError ''Cannot read property shift of undefined''), 1,
      (statusWorld ''pending'')\<lparr>nreq := 1, trace := [Sent (pollRequest sampleEnv), Waited 1000]\<rparr>)"
proof (intro conjI)
  show "respondToChallenge d env cnt w = (Inl (TypeError ''Cannot read property shift of undefined''), cnt, w)"
    by (rule respondToChallenge_throws)
  show "deactivate d env w = (Inl (TypeError ''Cannot read property shift of undefined''), w)"
    by (rule deactivate_throws)
  show "postChallenge sampleDeps readyEngine keyedOptions sampleAuth (statusWorld ''pending'') =
     (Inl (TypeError ''Cannot read property shift of undefined''), statusWorld ''pending'')"
    by (simp add: postChallenge_def respondToChallenge_throws sampleAuth_def lookup_def untame_def
        del: respondToChallenge.simps)
  show "pollStatus sampleDeps sampleEnv 0 (statusWorld ''pending'') =
     (Inl (TypeError ''Cannot read property shift of undefined''), 1,
      (statusWorld ''pending'')\<lparr>nreq := 1, trace := [Sent (pollRequest sampleEnv), Waited 1000]\<rparr>)"
    by (simp add: respondToChallenge_throws deactivate_throws me_request_def wait_def
        statusWorld_def sampleWorld_def sampleReply_def sampleEnv_def
        del: respondToChallenge.simps)
qed

text \<open>
  Claim C6 says that \<^verbatim>\<open>_finalizeOrder\<close> POSTs \<^verbatim>\<open>{ csr }\<close> to the finalize URL and then
  dispatches on the order status. The code calls \<^verbatim>\<open>ACME._jwsRequest\<close> without \<^verbatim>\<open>me\<close> in
  \<^verbatim>\<open>pollCert\<close>: once the CSR has been generated the call ends in a \<^verbatim>\<open>TypeError\<close>, nothing
  is sent and no status is ever looked at.
\<close>

theorem finalizeOrder_type_error:
  "finalizeOrder d me options validatedDomains w =
     Some (case generateCsrWeb64 d (domainKeypair options) validatedDomains of
             Inl e \<Rightarrow> Inl (Foreign e)
           | Inr csr \<Rightarrow> Inl (TypeError ''Cannot read property shift of undefined''),
           options, w)"
proof (cases "generateCsrWeb64 d (domainKeypair options) validatedDomains")
  case (Inl e)
  then show ?thesis by (simp add: finalizeOrder_def)
next
  case (Inr csr)
  have "pollCert d options validatedDomains csr w =
          Some (Inl (TypeError ''Cannot read property shift of undefined''), options, w)"
    by (subst pollCert.simps) (simp add: jwsRequest_Literal)
  with Inr show ?thesis by (simp add: finalizeOrder_def)
qed


section \<open>Properties of the PEM chain utilities\<close>

subsection \<open>Collapsing line breaks\<close>

lemma dropWhile_all: "(\<forall>x\<in>set xs. P x) \<Longrightarrow> dropWhile P xs = []"
  by simp

lemma collapseNl_append:
  "ys = [] \<or> \<not> isNl (hd ys) \<Longrightarrow> collapseNl (xs @ ys) = collapseNl xs @ collapseNl ys"
proof (induction xs rule: collapseNl.induct)
  case 1
  then show ?case by simp
next
  case (2 c cs)
  show ?case
  proof (cases "isNl c")
    case False
    with 2 show ?thesis by simp
  next
    case True
    show ?thesis
    proof (cases "\<forall>x\<in>set cs. isNl x")
      case all: True
      then have "dropWhile isNl (cs @ ys) = ys"
        using "2.prems" by (cases ys) (auto simp: dropWhile_append)
      moreover from all have "dropWhile isNl cs = []" by simp
      ultimately show ?thesis using True by (simp del: dropWhile_eq_Nil_conv)
    next
      case some: False
      then have "dropWhile isNl (cs @ ys) = dropWhile isNl cs @ ys"
        by (auto simp: dropWhile_append)
      with "2.IH"(1)[OF True "2.prems"] True show ?thesis by simp
    qed
  qed
qed

lemma collapseNl_run:
  "e \<noteq> [] \<Longrightarrow> list_all isNl e \<Longrightarrow> collapseNl e = [CHR 0x0A]"
  by (cases e) (auto simp: list_all_iff dropWhile_all)

lemma collapseNl_no_pair:
  "successively (\<lambda>a b. \<not> (isNl a \<and> isNl b)) (collapseNl xs)"
proof (induction xs rule: collapseNl.induct)
  case 1
  then show ?case by simp
next
  case (2 c cs)
  show ?case
  proof (cases "isNl c")
    case True
    have "collapseNl (dropWhile isNl cs) = [] \<or> \<not> isNl (hd (collapseNl (dropWhile isNl cs)))"
    proof (cases "dropWhile isNl cs")
      case Nil
      then show ?thesis by (simp del: dropWhile_eq_Nil_conv)
    next
      case (Cons d ds)
      then have "\<not> isNl d" by (metis hd_dropWhile list.sel(1) list.distinct(1))
      with Cons show ?thesis by (simp del: dropWhile_eq_Nil_conv)
    qed
    with "2.IH"(1)[OF True] True show ?thesis
      by (cases "collapseNl (dropWhile isNl cs)") (auto simp: successively_Cons)
  next
    case False
    with "2.IH"(2) show ?thesis
      by (cases "collapseNl cs") (auto simp: successively_Cons)
  qed
qed

lemma collapseNl_hd: "xs \<noteq> [] \<Longrightarrow> \<not> isNl (hd xs) \<Longrightarrow> hd (collapseNl xs) = hd xs \<and> collapseNl xs \<noteq> []"
  by (cases xs) auto

lemma collapseNl_last:
  assumes "xs \<noteq> []" "\<not> isNl (last xs)"
  shows "collapseNl xs = collapseNl (butlast xs) @ [last xs]"
proof -
  have "collapseNl (butlast xs @ [last xs]) = collapseNl (butlast xs) @ collapseNl [last xs]"
    using assms(2) by (intro collapseNl_append) simp
  with assms show ?thesis by simp
qed


subsection \<open>Replacing every occurrence of a literal\<close>

lemma replaceAll_none: "\<not> sublist p xs \<Longrightarrow> replaceAll p r xs = xs"
  by (induction xs) (auto simp: sublist_Cons_right)

lemma replaceAll_at:
  assumes "p \<noteq> []"
  shows "replaceAll p r (p @ ys) = r @ replaceAll p r ys"
proof -
  from assms obtain c cs where p: "p = c # cs" by (cases p) auto
  show ?thesis by (simp add: p)
qed

lemma prefix_shorter:
  "prefix p (xs @ ys) \<Longrightarrow> length p \<le> length xs \<Longrightarrow> prefix p xs"
  by (metis prefix_append prefix_length_prefix prefixI append_eq_append_conv_if prefix_def take_is_prefix)

text \<open>
  When the pattern does not occur before the position \<open>length xs\<close>, the first replacement
  happens there and the scan goes on behind the match.
\<close>

lemma replaceAll_first:
  assumes "p \<noteq> []" and "\<not> sublist p (xs @ butlast p)"
  shows "replaceAll p r (xs @ p @ ys) = xs @ r @ replaceAll p r ys"
  using assms(2)
proof (induction xs)
  case Nil
  then show ?case using assms(1) by (simp add: replaceAll_at)
next
  case (Cons c cs)
  from Cons.prems have np: "\<not> prefix p ((c # cs) @ butlast p)" and ns: "\<not> sublist p (cs @ butlast p)"
    by (auto simp: sublist_Cons_right)
  have "\<not> prefix p ((c # cs) @ p @ ys)"
  proof
    assume "prefix p ((c # cs) @ p @ ys)"
    moreover have "(c # cs) @ p @ ys = ((c # cs) @ butlast p) @ ([last p] @ ys)"
      using assms(1) by (metis append.assoc append_butlast_last_id)
    ultimately have "prefix p (((c # cs) @ butlast p) @ ([last p] @ ys))"
      by metis
    moreover have "length p \<le> length ((c # cs) @ butlast p)" by simp
    ultimately have "prefix p ((c # cs) @ butlast p)" by (rule prefix_shorter)
    with np show False by contradiction
  qed
  with Cons.IH[OF ns] show ?case by simp
qed


lemma collapseNl_append_left:
  "xs = [] \<or> \<not> isNl (last xs) \<Longrightarrow> collapseNl (xs @ ys) = collapseNl xs @ collapseNl ys"
proof (induction xs rule: collapseNl.induct)
  case 1
  then show ?case by simp
next
  case (2 c cs)
  show ?case
  proof (cases "isNl c")
    case False
    with 2 show ?thesis by (cases cs) auto
  next
    case True
    with "2.prems" have cs: "cs \<noteq> []" "\<not> isNl (last cs)" by (auto split: if_splits)
    then have mem: "last cs \<in> set cs" by simp
    from mem cs(2) have d: "dropWhile isNl (cs @ ys) = dropWhile isNl cs @ ys"
      by (rule dropWhile_append1)
    from mem cs(2) have "last (dropWhile isNl cs) = last cs" by (rule dropWhile_last)
    with cs(2) have "dropWhile isNl cs = [] \<or> \<not> isNl (last (dropWhile isNl cs))" by simp
    from "2.IH"(1)[OF True this] d True show ?thesis by simp
  qed
qed

subsection \<open>Joining texts\<close>

lemma concat_sep_shift:
  "concat (map (\<lambda>x. x @ [s]) xs) @ y = hd (xs @ [y]) @ concat (map (\<lambda>u. s # u) (tl (xs @ [y])))"
proof (induction xs)
  case Nil
  then show ?case by simp
next
  case (Cons x xs)
  then show ?case by (cases xs) auto
qed

lemma sublist_snoc: "sublist p (w @ [c]) \<longleftrightarrow> suffix p (w @ [c]) \<or> sublist p w"
proof -
  have "sublist p (w @ [c]) \<longleftrightarrow> sublist (rev p) (rev (w @ [c]))"
    by (simp only: sublist_rev)
  also have "\<dots> \<longleftrightarrow> prefix (rev p) (rev (w @ [c])) \<or> sublist (rev p) (rev w)"
    by (simp add: sublist_Cons_right del: sublist_rev)
  finally show ?thesis by (simp add: suffix_to_prefix)
qed

lemma no_dash_snoc:
  "\<not> sublist [CHR ''-'', CHR 0x0A, CHR ''-''] w \<Longrightarrow>
   \<not> sublist [CHR ''-'', CHR 0x0A, CHR ''-''] (w @ [CHR 0x0A])"
  by (auto simp: sublist_snoc suffix_def)

lemma no_dash_tl:
  "\<not> sublist [CHR ''-'', CHR 0x0A, CHR ''-''] u \<Longrightarrow> \<not> sublist [CHR ''-'', CHR 0x0A, CHR ''-''] (tl u)"
  by (cases u) (auto simp: sublist_Cons_right)

text \<open>
  Texts that end and begin with a dash, joined by single line breaks: the replacement puts
  a second line break at each joint and nowhere else.
\<close>

lemma dashes_join:
  assumes "w \<noteq> []" "last w = CHR ''-''" "\<not> sublist [CHR ''-'', CHR 0x0A, CHR ''-''] w"
    and "\<forall>u\<in>set us. 2 \<le> length u \<and> hd u = CHR ''-'' \<and> last u = CHR ''-'' \<and>
                     \<not> sublist [CHR ''-'', CHR 0x0A, CHR ''-''] u"
  shows "replaceAll [CHR ''-'', CHR 0x0A, CHR ''-''] [CHR ''-'', CHR 0x0A, CHR 0x0A, CHR ''-'']
           (w @ concat (map (\<lambda>u. CHR 0x0A # u) us))
         = w @ concat (map (\<lambda>u. CHR 0x0A # CHR 0x0A # u) us)"
  using assms
proof (induction us arbitrary: w)
  case Nil
  then show ?case by (simp add: replaceAll_none)
next
  case (Cons u us)
  let ?P = "[CHR ''-'', CHR 0x0A, CHR ''-'']"
  let ?R = "[CHR ''-'', CHR 0x0A, CHR 0x0A, CHR ''-'']"
  let ?rest = "concat (map (\<lambda>u. CHR 0x0A # u) us)"
  from Cons.prems(4) have u: "2 \<le> length u" "hd u = CHR ''-''" "last u = CHR ''-''" "\<not> sublist ?P u"
    and us: "\<forall>u\<in>set us. 2 \<le> length u \<and> hd u = CHR ''-'' \<and> last u = CHR ''-'' \<and> \<not> sublist ?P u"
    by auto
  from u(1) obtain v where uv: "u = CHR ''-'' # v" "v \<noteq> []"
    using u(2) by (cases u; cases "tl u") auto
  have w: "w = butlast w @ [CHR ''-'']"
    using Cons.prems(1,2) by (metis append_butlast_last_id)
  have shape: "w @ concat (map (\<lambda>u. CHR 0x0A # u) (u # us)) = butlast w @ ?P @ (v @ ?rest)"
    by (subst w) (simp add: uv)
  have "\<not> sublist ?P (w @ [CHR 0x0A])"
    using Cons.prems(3) by (rule no_dash_snoc)
  then have guard: "\<not> sublist ?P (butlast w @ butlast ?P)"
    by (subst (asm) w) simp
  have v: "last v = CHR ''-''" "\<not> sublist ?P v"
    using u(3,4) uv by (auto simp: sublist_Cons_right)
  have "replaceAll ?P ?R (butlast w @ ?P @ (v @ ?rest)) = butlast w @ ?R @ replaceAll ?P ?R (v @ ?rest)"
    using guard by (intro replaceAll_first) simp_all
  also have "replaceAll ?P ?R (v @ ?rest) = v @ concat (map (\<lambda>u. CHR 0x0A # CHR 0x0A # u) us)"
    using uv(2) v us by (intro Cons.IH) 
  finally show ?case
    unfolding shape by (subst (2) w) (simp add: uv)
qed


subsection \<open>Splitting at blank lines\<close>

lemma splitBlank_sep:
  "ys = [] \<or> \<not> isNl (hd ys) \<Longrightarrow>
   splitBlank acc (CHR 0x0A # CHR 0x0A # ys) = rev acc # splitBlank [] ys"
  by (cases ys) (auto simp: isNl_def)

lemma splitBlank_text:
  "successively (\<lambda>a b. \<not> (isNl a \<and> isNl b)) u \<Longrightarrow> u = [] \<or> \<not> isNl (last u) \<Longrightarrow>
   splitBlank acc (u @ rest) = splitBlank (rev u @ acc) rest"
proof (induction u arbitrary: acc)
  case Nil
  then show ?case by simp
next
  case (Cons c cs)
  have step: "splitBlank acc ((c # cs) @ rest) = splitBlank (c # acc) (cs @ rest)"
  proof (cases "isNl c")
    case False
    then show ?thesis by simp
  next
    case True
    with Cons.prems have "cs \<noteq> []" "\<not> isNl (hd cs)"
      by (cases cs; auto split: if_splits)+
    then show ?thesis by (cases cs) auto
  qed
  from Cons.prems have "successively (\<lambda>a b. \<not> (isNl a \<and> isNl b)) cs" "cs = [] \<or> \<not> isNl (last cs)"
    by (auto simp: successively_Cons split: if_splits)
  from Cons.IH[OF this] step show ?case by simp
qed

lemma splitBlank_join:
  assumes "\<forall>u\<in>set (w # us). successively (\<lambda>a b. \<not> (isNl a \<and> isNl b)) u \<and> u \<noteq> [] \<and>
                            \<not> isNl (hd u) \<and> \<not> isNl (last u)"
  shows "splitBlank acc (w @ concat (map (\<lambda>u. CHR 0x0A # CHR 0x0A # u) us)) = (rev acc @ w) # us"
  using assms
proof (induction us arbitrary: acc w)
  case Nil
  then show ?case by (simp add: splitBlank_text[where rest="[]", simplified])
next
  case (Cons u us)
  let ?rest = "concat (map (\<lambda>u. CHR 0x0A # CHR 0x0A # u) us)"
  from Cons.prems have w: "successively (\<lambda>a b. \<not> (isNl a \<and> isNl b)) w" "\<not> isNl (last w)"
    and u: "u \<noteq> []" "\<not> isNl (hd u)"
    and rest: "\<forall>x\<in>set (u # us). successively (\<lambda>a b. \<not> (isNl a \<and> isNl b)) x \<and> x \<noteq> [] \<and>
                            \<not> isNl (hd x) \<and> \<not> isNl (last x)"
    by auto
  have "splitBlank acc (w @ concat (map (\<lambda>u. CHR 0x0A # CHR 0x0A # u) (u # us)))
        = splitBlank (rev w @ acc) (CHR 0x0A # CHR 0x0A # (u @ ?rest))"
    using w by (simp add: splitBlank_text)
  also have "\<dots> = rev (rev w @ acc) # splitBlank [] (u @ ?rest)"
    using u by (intro splitBlank_sep) (cases u, auto)
  also have "splitBlank [] (u @ ?rest) = (rev [] @ u) # us"
    using rest by (intro Cons.IH)
  finally show ?case by simp
qed

subsection \<open>Trimming\<close>

lemma isNl_isSpace: "isNl c \<Longrightarrow> isSpace c"
  by (auto simp: isNl_def isSpace_def)

lemma trim_text:
  assumes "xs \<noteq> []" "\<not> isSpace (hd xs)" "\<not> isSpace (last xs)" "list_all isNl e"
  shows "trim (xs @ e) = xs"
proof -
  have 1: "dropWhile isSpace (xs @ e) = xs @ e"
    using assms(1,2) by (cases xs) auto
  have "dropWhile isSpace (rev e @ rev xs) = dropWhile isSpace (rev xs)"
    using assms(4) by (intro dropWhile_append2) (auto simp: list_all_iff isNl_isSpace)
  also have "\<dots> = rev xs"
    using assms(1,3) by (cases "rev xs") (auto simp: last_rev[symmetric] simp del: last_rev)
  finally show ?thesis by (simp add: trim_def 1)
qed


subsection \<open>The round trip\<close>

lemma not_isNl_dash [simp]: "\<not> isNl CHR ''-''" "\<not> isSpace CHR ''-''"
  by (simp_all add: isNl_def isSpace_def)

lemma pemText_collapsed:
  assumes "pemText t"
  shows "2 \<le> length (collapseNl t)" "hd (collapseNl t) = CHR ''-''" "last (collapseNl t) = CHR ''-''"
        "\<not> sublist [CHR ''-'', CHR 0x0A, CHR ''-''] (collapseNl t)"
        "t \<noteq> []" "hd t = CHR ''-''" "last t = CHR ''-''"
proof -
  from assms have t: "2 \<le> length t" "hd t = CHR ''-''" "last t = CHR ''-''"
    and ns: "\<not> sublist [CHR ''-'', CHR 0x0A, CHR ''-''] (collapseNl t)"
    by (auto simp: pemText_def)
  from t(1) have ne: "t \<noteq> []" by auto
  from t(1) have bne: "butlast t \<noteq> []" by (cases t; cases "tl t") auto
  then have hb: "hd (butlast t) = CHR ''-''" using t(2) ne by (cases t) auto
  have c: "collapseNl t = collapseNl (butlast t) @ [CHR ''-'']"
    using collapseNl_last[OF ne] t(3) by simp
  from collapseNl_hd[OF bne] hb have v: "hd (collapseNl (butlast t)) = CHR ''-''" "collapseNl (butlast t) \<noteq> []"
    by auto
  show "2 \<le> length (collapseNl t)" using c v(2) by (cases "collapseNl (butlast t)") auto
  show "hd (collapseNl t) = CHR ''-''" using c v by simp
  show "last (collapseNl t) = CHR ''-''" using c by simp
  show "\<not> sublist [CHR ''-'', CHR 0x0A, CHR ''-''] (collapseNl t)" by (rule ns)
  show "t \<noteq> []" by (rule ne)
  show "hd t = CHR ''-''" "last t = CHR ''-''" by (rule t)+
qed

lemma collapseNl_blocks:
  assumes "\<forall>b\<in>set bs. pemText (fst b) \<and> list_all isNl (snd b) \<and> snd b \<noteq> []"
    and "x \<noteq> []" "hd x = CHR ''-''"
  shows "collapseNl (concat (map pemBlock bs) @ x)
         = concat (map (\<lambda>b. collapseNl (fst b) @ [CHR 0x0A]) bs) @ collapseNl x \<and>
         hd (concat (map pemBlock bs) @ x) = CHR ''-''"
  using assms(1)
proof (induction bs)
  case Nil
  then show ?case using assms(2,3) by simp
next
  case (Cons b bs)
  obtain t e where b: "b = (t, e)" by (cases b)
  from Cons.prems b have t: "pemText t" and e: "list_all isNl e" "e \<noteq> []" by auto
  let ?X = "concat (map pemBlock bs) @ x"
  from Cons have IH: "collapseNl ?X = concat (map (\<lambda>b. collapseNl (fst b) @ [CHR 0x0A]) bs) @ collapseNl x"
    and hx: "hd ?X = CHR ''-''" by auto
  have xne: "?X \<noteq> []" using assms(2) by simp
  from pemText_collapsed(5-7)[OF t] have tt: "t \<noteq> []" "hd t = CHR ''-''" "last t = CHR ''-''" .
  have "collapseNl (t @ (e @ ?X)) = collapseNl t @ collapseNl (e @ ?X)"
    using tt by (intro collapseNl_append_left) simp
  also have "collapseNl (e @ ?X) = collapseNl e @ collapseNl ?X"
    using hx xne by (intro collapseNl_append) simp
  also have "collapseNl e = [CHR 0x0A]" using e by (intro collapseNl_run)
  finally have "collapseNl (t @ e @ ?X) = collapseNl t @ [CHR 0x0A] @ collapseNl ?X" .
  moreover have "hd (t @ e @ ?X) = CHR ''-''" using tt by simp
  moreover have "pemBlock (t, e) = t @ e" by (simp add: pemBlock_def)
  ultimately show ?case by (simp add: b IH)
qed


lemma last_join:
  "\<forall>u\<in>set (w # us). u \<noteq> [] \<Longrightarrow>
   last (w @ concat (map (\<lambda>u. CHR 0x0A # CHR 0x0A # u) us)) = last (last (w # us))"
  by (induction us arbitrary: w) auto

lemma collapseNl_id:
  "CHR 0x0D \<notin> set t \<Longrightarrow> \<not> sublist [CHR 0x0A, CHR 0x0A] t \<Longrightarrow> collapseNl t = t"
proof (induction t rule: collapseNl.induct)
  case 1
  then show ?case by simp
next
  case (2 c cs)
  from "2.prems" have tail: "CHR 0x0D \<notin> set cs" "\<not> sublist [CHR 0x0A, CHR 0x0A] cs"
    and np: "\<not> prefix [CHR 0x0A, CHR 0x0A] (c # cs)" and c: "c \<noteq> CHR 0x0D"
    by (auto simp: sublist_Cons_right)
  show ?case
  proof (cases "isNl c")
    case False
    with "2.IH"(2)[OF False tail] show ?thesis by simp
  next
    case True
    with c have lf: "c = CHR 0x0A" by (simp add: isNl_def)
    have "dropWhile isNl cs = cs"
    proof (cases cs)
      case Nil
      then show ?thesis by simp
    next
      case (Cons x xs)
      with np lf tail(1) have "\<not> isNl x" by (auto simp: isNl_def)
      with Cons show ?thesis by simp
    qed
    with "2.IH"(1)[OF True] tail True lf show ?thesis by simp
  qed
qed

text \<open>
  Claim C9, amended. For every list of PEM blocks that is not empty, each block being a
  PEM text followed by line breaks (at least one, except after the last block),
  \<^verbatim>\<open>splitPemChain(formatPemChain(...))\<close> of their concatenation yields, block by block, the
  text with every run of CR and LF inside it collapsed to a single LF, followed by a single
  LF. For blocks whose text has no CR and no blank line this is the original block up to
  its trailing line breaks.
\<close>

theorem pem_round_trip:
  assumes ok: "pemChainOk blocks"
  shows "splitPemChain (formatPemChain (concat (map pemBlock blocks)))
           = map (\<lambda>b. collapseNl (fst b) @ [CHR 0x0A]) blocks \<and>
         (list_all (\<lambda>b. CHR 0x0D \<notin> set (fst b) \<and> \<not> sublist [CHR 0x0A, CHR 0x0A] (fst b)) blocks \<longrightarrow>
            splitPemChain (formatPemChain (concat (map pemBlock blocks)))
              = map (\<lambda>b. fst b @ [CHR 0x0A]) blocks)"
proof -
  let ?P = "[CHR ''-'', CHR 0x0A, CHR ''-'']"
  let ?np = "\<lambda>a b. \<not> (isNl a \<and> isNl b)"
  define bs where "bs = butlast blocks"
  define tn where "tn = fst (last blocks)"
  define en where "en = snd (last blocks)"
  from ok have ne: "blocks \<noteq> []" by (simp add: pemChainOk_def)
  then have blocks: "blocks = bs @ [(tn, en)]"
    by (simp add: bs_def tn_def en_def)
  from ok have all: "\<forall>b\<in>set blocks. pemText (fst b) \<and> list_all isNl (snd b)"
    and init: "\<forall>b\<in>set bs. snd b \<noteq> []"
    by (auto simp: pemChainOk_def list_all_iff bs_def)
  have bsok: "\<forall>b\<in>set bs. pemText (fst b) \<and> list_all isNl (snd b) \<and> snd b \<noteq> []"
    using all init blocks by auto
  have tn: "pemText tn" and en: "list_all isNl en"
    using all blocks by auto
  note tnp = pemText_collapsed[OF tn]
  let ?S' = "concat (map pemBlock bs) @ tn"
  have S: "concat (map pemBlock blocks) = ?S' @ en"
    by (simp add: blocks pemBlock_def)
  from collapseNl_blocks[OF bsok tnp(5,6)]
  have col: "collapseNl ?S' = concat (map (\<lambda>b. collapseNl (fst b) @ [CHR 0x0A]) bs) @ collapseNl tn"
    and hdS: "hd ?S' = CHR ''-''" by auto
  have "trim (?S' @ en) = ?S'"
    using tnp(5,7) hdS en by (intro trim_text) auto
  then have trimS: "trim (concat (map pemBlock blocks)) = ?S'" by (simp only: S)
  define us where "us = map (\<lambda>b. collapseNl (fst b)) blocks"
  have us: "us = map (\<lambda>b. collapseNl (fst b)) bs @ [collapseNl tn]"
    by (simp add: us_def blocks)
  have usne: "us \<noteq> []" by (simp add: us)
  have usok: "\<forall>u\<in>set us. 2 \<le> length u \<and> hd u = CHR ''-'' \<and> last u = CHR ''-'' \<and> \<not> sublist ?P u"
    using all pemText_collapsed(1-4) by (auto simp: us_def)
  have split: "hd us # tl us = us" using usne by simp
  have "concat (map (\<lambda>b. collapseNl (fst b) @ [CHR 0x0A]) bs)
          = concat (map (\<lambda>x. x @ [CHR 0x0A]) (map (\<lambda>b. collapseNl (fst b)) bs))"
    by (simp add: comp_def)
  with col have col': "collapseNl ?S' = hd us @ concat (map (\<lambda>u. CHR 0x0A # u) (tl us))"
    by (simp only: concat_sep_shift us)
  let ?J = "hd us @ concat (map (\<lambda>u. CHR 0x0A # CHR 0x0A # u) (tl us))"
  have w: "hd us \<in> set us" "set (tl us) \<subseteq> set us"
    using usne by (auto simp: list.set_sel)
  have dash: "replaceAll ?P [CHR ''-'', CHR 0x0A, CHR 0x0A, CHR ''-'']
                (hd us @ concat (map (\<lambda>u. CHR 0x0A # u) (tl us))) = ?J"
  proof (rule dashes_join)
    show "hd us \<noteq> []" "last (hd us) = CHR ''-''" "\<not> sublist ?P (hd us)"
      using usok w(1) by auto
    show "\<forall>u\<in>set (tl us). 2 \<le> length u \<and> hd u = CHR ''-'' \<and> last u = CHR ''-'' \<and> \<not> sublist ?P u"
      using usok w(2) by auto
  qed
  have fmt: "formatPemChain (concat (map pemBlock blocks)) = ?J @ [CHR 0x0A]"
    by (simp only: formatPemChain_def trimS col' dash)
  have nonempty: "\<forall>u\<in>set (hd us # tl us). u \<noteq> []"
    using usok by (simp only: split) auto
  have "last ?J = last (last (hd us # tl us))"
    using nonempty by (rule last_join)
  then have lastJ: "last ?J = CHR ''-''"
    using usok usne by (simp only: split) simp
  have hdJ: "hd ?J = CHR ''-''" "?J \<noteq> []"
    using usok w(1) by (cases "hd us"; auto)+
  have "trim (?J @ [CHR 0x0A]) = ?J"
    using hdJ lastJ by (intro trim_text) (simp_all add: isNl_def)
  then have trimJ: "trim (formatPemChain (concat (map pemBlock blocks))) = ?J"
    by (simp only: fmt)
  have "splitBlank [] ?J = (rev [] @ hd us) # tl us"
  proof (rule splitBlank_join)
    show "\<forall>u\<in>set (hd us # tl us). successively ?np u \<and> u \<noteq> [] \<and> \<not> isNl (hd u) \<and> \<not> isNl (last u)"
      unfolding split using usok collapseNl_no_pair by (auto simp: us_def)
  qed
  then have "splitBlank [] ?J = us" using split by simp
  then have main: "splitPemChain (formatPemChain (concat (map pemBlock blocks)))
           = map (\<lambda>b. collapseNl (fst b) @ [CHR 0x0A]) blocks"
    by (simp add: splitPemChain_def trimJ us_def comp_def)
  have "map (\<lambda>b. collapseNl (fst b) @ [CHR 0x0A]) blocks = map (\<lambda>b. fst b @ [CHR 0x0A]) blocks"
    if "list_all (\<lambda>b. CHR 0x0D \<notin> set (fst b) \<and> \<not> sublist [CHR 0x0A, CHR 0x0A] (fst b)) blocks"
    using that by (auto simp: list_all_iff collapseNl_id)
  with main show ?thesis by simp
qed

text \<open>
  A chain of three certificates with mixed line ends and none after the last, and a chain
  of two with LF line ends throughout.
\<close>

theorem pem_round_trip_witness:
  "pemChainOk [(lfCert, [CHR 0x0A]), (crlfCert, [CHR 0x0D, CHR 0x0A]), (lfCert, [])] \<and>
   splitPemChain (formatPemChain (lfCert @ [CHR 0x0A] @ crlfCert @ [CHR 0x0D, CHR 0x0A] @ lfCert))
     = [lfCert @ [CHR 0x0A], collapseNl crlfCert @ [CHR 0x0A], lfCert @ [CHR 0x0A]] \<and>
   pemChainOk [(lfCert, [CHR 0x0A]), (lfCert, [CHR 0x0A, CHR 0x0A])] \<and>
   splitPemChain (formatPemChain (lfCert @ [CHR 0x0A] @ lfCert @ [CHR 0x0A, CHR 0x0A]))
     = [lfCert @ [CHR 0x0A], lfCert @ [CHR 0x0A]]"
proof -
  have mixed: "pemChainOk [(lfCert, [CHR 0x0A]), (crlfCert, [CHR 0x0D, CHR 0x0A]), (lfCert, [])]"
    by code_simp
  have plain: "pemChainOk [(lfCert, [CHR 0x0A]), (lfCert, [CHR 0x0A, CHR 0x0A])]"
    by code_simp
  have lf: "list_all (\<lambda>b. CHR 0x0D \<notin> set (fst b) \<and> \<not> sublist [CHR 0x0A, CHR 0x0A] (fst b))
              [(lfCert, [CHR 0x0A]), (lfCert, [CHR 0x0A, CHR 0x0A])]"
    by code_simp
  have id: "collapseNl lfCert = lfCert"
    by code_simp
  from pem_round_trip[OF mixed] pem_round_trip[OF plain] lf mixed plain show ?thesis
    by (simp add: pemBlock_def id)
qed

text \<open>
  Claim C9 as stated fails on the empty list of blocks, where the round trip yields one
  block that holds a single LF, and on a block with CRLF line ends, which comes back with
  LF line ends.
\<close>

theorem pem_round_trip_counterexample:
  "splitPemChain (formatPemChain (concat (map pemBlock []))) = [[CHR 0x0A]] \<and>
   splitPemChain (formatPemChain (pemBlock (crlfCert, [CHR 0x0D, CHR 0x0A])))
     = [''-----BEGIN CERTIFICATE-----'' @ [CHR 0x0A] @ ''REVG'' @ [CHR 0x0A]
        @ ''-----END CERTIFICATE-----'' @ [CHR 0x0A]] \<and>
   crlfCert \<noteq> ''-----BEGIN CERTIFICATE-----'' @ [CHR 0x0A] @ ''REVG'' @ [CHR 0x0A]
        @ ''-----END CERTIFICATE-----''"
  by code_simp

end
